theory Spec2Isabelle
  imports Complex_Main "HOL-Library.Sublist" "HOL-Library.Multiset"
    "HOL-Library.List_Lexorder" "HOL-Library.Char_ord" "HOL-Library.Product_Lexorder" "HOL-Library.Word"
begin

section \<open>FinForge: the report contract and the components that render it\<close>

text \<open>
  The report a run of the detection engine returns is rendered by five React components:
  StatsStrip, GraphPanel, RingPanel, AccountsTable and DownloadBar. Numbers of the report
  are JavaScript numbers; the model reads them as reals. The strings the components
  inspect are account ids, ring ids and pattern tags.
\<close>

subsection \<open>AccountsTable: the style of a pattern tag\<close>

text \<open>
  \<^verbatim>\<open>
  const TAG_CLASS = (p) => {
    if (p.includes('cycle')) return styles.tagCycle
    if (p.includes('fan') || p.includes('velocity') || p.includes('smurf')) return styles.tagSmurf
    return styles.tagShell
  }
  \<close>
  \<open>String.prototype.includes\<close> searches the receiver for an occurrence of its argument at
  any position. The three entries of the CSS module are the three values of \<open>tag_style\<close>.
\<close>

datatype tag_style = tagCycle | tagSmurf | tagShell

fun str_includes :: "string \<Rightarrow> string \<Rightarrow> bool" where
  "str_includes [] t = (t = [])"
| "str_includes (c # s) t = (prefix t (c # s) \<or> str_includes s t)"

definition TAG_CLASS :: "string \<Rightarrow> tag_style" where
  "TAG_CLASS p =
     (if str_includes p ''cycle'' then tagCycle
      else if str_includes p ''fan'' \<or> str_includes p ''velocity'' \<or> str_includes p ''smurf'' then tagSmurf
      else tagShell)"

lemma includes_sublist: "str_includes s t \<longleftrightarrow> sublist t s"
  by (induction s) (auto simp: sublist_Cons_right)

text \<open>
  Claim C10. For every pattern tag, TAG_CLASS gives the cycle style exactly when the tag
  contains \<open>cycle\<close>; otherwise the smurfing style exactly when it contains \<open>fan\<close>,
  \<open>velocity\<close> or \<open>smurf\<close>; otherwise the shell style. The cycle-evidence tags
  \<open>temporal_burst_72h\<close>, \<open>temporal_burst_week\<close> and \<open>amount_decay\<close> get the shell style.
\<close>

theorem TAG_CLASS_by_substring:
  "(TAG_CLASS p = tagCycle \<longleftrightarrow> sublist ''cycle'' p) \<and>
   (TAG_CLASS p = tagSmurf \<longleftrightarrow>
      (sublist ''fan'' p \<or> sublist ''velocity'' p \<or> sublist ''smurf'' p) \<and> \<not> sublist ''cycle'' p) \<and>
   (TAG_CLASS p = tagShell \<longleftrightarrow>
      \<not> sublist ''cycle'' p \<and> \<not> sublist ''fan'' p \<and> \<not> sublist ''velocity'' p \<and> \<not> sublist ''smurf'' p) \<and>
   TAG_CLASS ''temporal_burst_72h'' = tagShell \<and>
   TAG_CLASS ''temporal_burst_week'' = tagShell \<and>
   TAG_CLASS ''amount_decay'' = tagShell"
proof -
  have general: "TAG_CLASS p =
     (if sublist ''cycle'' p then tagCycle
      else if sublist ''fan'' p \<or> sublist ''velocity'' p \<or> sublist ''smurf'' p then tagSmurf
      else tagShell)"
    by (simp add: TAG_CLASS_def includes_sublist)
  have t1: "TAG_CLASS ''temporal_burst_72h'' = tagShell"
    by (simp add: TAG_CLASS_def)
  have t2: "TAG_CLASS ''temporal_burst_week'' = tagShell"
    by (simp add: TAG_CLASS_def)
  have t3: "TAG_CLASS ''amount_decay'' = tagShell"
    by (simp add: TAG_CLASS_def)
  from general t1 t2 t3 show ?thesis
    by auto
qed


subsection \<open>AccountsTable: the rows of the table\<close>

text \<open>
  An entry of the report's \<open>suspicious_accounts\<close>. Its \<open>ring_id\<close> (a string or null) is the
  field \<open>acct_ring_id\<close>: the name \<open>ring_id\<close> is kept for the ring's own field.
\<close>

record suspicious_account =
  account_id :: string
  suspicion_score :: real
  acct_ring_id :: "string option"
  detected_patterns :: "string list"

text \<open>
  One \<open>tr\<close> of the table body: its React key, the account id cell, the score (the number
  shown and the width of the bar are both the score; the colour is \<open>barColor\<close>), the ring
  cell, and one span per pattern with its style and the tag's text, underscores replaced
  by spaces (\<open>p.replace(/_/g, ' ')\<close>).
\<close>

record table_row =
  row_key :: string
  cell_account :: string
  cell_score :: real
  bar_color :: string
  cell_ring :: "string option"
  cell_tags :: "(tag_style \<times> string) list"

definition underscores_to_spaces :: "string \<Rightarrow> string" where
  "underscores_to_spaces p = map (\<lambda>c. if c = CHR ''_'' then CHR '' '' else c) p"

definition barColor :: "real \<Rightarrow> string" where
  "barColor score =
     (if score \<ge> 80 then ''var(--danger)''
      else if score \<ge> 55 then ''var(--warn)'' else ''var(--safe)'')"

definition account_row :: "suspicious_account \<Rightarrow> table_row" where
  "account_row acc =
     (let score = suspicion_score acc in
      \<lparr> row_key = account_id acc,
        cell_account = account_id acc,
        cell_score = score,
        bar_color = barColor score,
        cell_ring = acct_ring_id acc,
        cell_tags = map (\<lambda>p. (TAG_CLASS p, underscores_to_spaces p)) (detected_patterns acc) \<rparr>)"

text \<open>
  \<^verbatim>\<open>
  export default function AccountsTable({ accounts }) {
    if (!accounts || accounts.length === 0) return null
    ... {accounts.slice(0, 100).map(acc => { ... <tr key={acc.account_id}> ... })}
  \<close>
  The prop is absent (\<open>None\<close>: undefined or null) or a list. The result is \<open>None\<close> when
  the component returns null and nothing is rendered, and the rows of the table body
  otherwise; the header of the panel shows \<open>accounts.length\<close>.
\<close>

definition AccountsTable :: "suspicious_account list option \<Rightarrow> (nat \<times> table_row list) option" where
  "AccountsTable accounts =
     (case accounts of
        None \<Rightarrow> None
      | Some accs \<Rightarrow>
          if length accs = 0 then None
          else Some (length accs, map account_row (take 100 accs)))"

text \<open>
  The order of \<open>suspicious_accounts\<close> the report contract promises: descending by
  \<open>suspicion_score\<close>, ties by account id ascending (strings compare lexicographically,
  character by character).
\<close>

definition report_order :: "suspicious_account \<Rightarrow> suspicious_account \<Rightarrow> bool" where
  "report_order a b =
     (suspicion_score a > suspicion_score b \<or>
      (suspicion_score a = suspicion_score b \<and> account_id a \<le> account_id b))"

text \<open>A report of 101 accounts with scores 200, 199, ..., 100, to run the table on.\<close>

definition sample_accounts :: "suspicious_account list" where
  "sample_accounts =
     map (\<lambda>i. \<lparr> account_id = replicate i CHR ''a'', suspicion_score = 200 - real i,
                acct_ring_id = None, detected_patterns = [] \<rparr>) [0..<101]"

lemma report_order_score:
  "report_order a b \<Longrightarrow> suspicion_score b \<le> suspicion_score a"
  by (auto simp: report_order_def)

lemma sorted_wrt_take_drop:
  assumes "sorted_wrt P xs" and "a \<in> set (take n xs)" and "b \<in> set (drop n xs)"
  shows "P a b"
proof -
  from assms(1) have "sorted_wrt P (take n xs @ drop n xs)"
    by simp
  with assms(2,3) show ?thesis
    unfolding sorted_wrt_append by blast
qed

text \<open>
  Claim C6. AccountsTable renders nothing for an absent or empty list; otherwise it
  renders one row for each of the first \<open>min 100 n\<close> accounts, in list order (row \<open>i\<close> is
  the row of account \<open>i\<close>). When the list is in the order of the report contract, every
  account shown scores at least as high as every account left out: the rows are the
  highest-scoring accounts.
\<close>

theorem AccountsTable_first_100:
  "AccountsTable None = None \<and>
   AccountsTable (Some []) = None \<and>
   (accounts \<noteq> [] \<longrightarrow>
      (\<exists>rows. AccountsTable (Some accounts) = Some (length accounts, rows) \<and>
         length rows = min 100 (length accounts) \<and>
         rows = map account_row (take 100 accounts) \<and>
         map row_key rows = map account_id (take 100 accounts) \<and>
         (\<forall>i < length rows. rows ! i = account_row (accounts ! i)))) \<and>
   (sorted_wrt report_order accounts \<longrightarrow>
      (\<forall>a \<in> set (take 100 accounts). \<forall>b \<in> set (drop 100 accounts).
         suspicion_score b \<le> suspicion_score a))"
proof -
  have absent: "AccountsTable None = None" and empty: "AccountsTable (Some []) = None"
    by (simp_all add: AccountsTable_def)
  have shown: "\<exists>rows. AccountsTable (Some accounts) = Some (length accounts, rows) \<and>
         length rows = min 100 (length accounts) \<and>
         rows = map account_row (take 100 accounts) \<and>
         map row_key rows = map account_id (take 100 accounts) \<and>
         (\<forall>i < length rows. rows ! i = account_row (accounts ! i))"
    if "accounts \<noteq> []"
  proof -
    let ?rows = "map account_row (take 100 accounts)"
    from that have "AccountsTable (Some accounts) = Some (length accounts, ?rows)"
      by (simp add: AccountsTable_def)
    moreover have "length ?rows = min 100 (length accounts)"
      by (simp add: min.commute)
    moreover have "map row_key ?rows = map account_id (take 100 accounts)"
      by (simp add: account_row_def Let_def comp_def)
    moreover have "\<forall>i < length ?rows. ?rows ! i = account_row (accounts ! i)"
      by simp
    ultimately show ?thesis
      by blast
  qed
  have top: "suspicion_score b \<le> suspicion_score a"
    if "sorted_wrt report_order accounts"
      and "a \<in> set (take 100 accounts)" and "b \<in> set (drop 100 accounts)" for a b
    using sorted_wrt_take_drop [OF that] by (rule report_order_score)
  from absent empty shown top show ?thesis
    by blast
qed

theorem AccountsTable_first_100_witness:
  "sample_accounts \<noteq> [] \<and> sorted_wrt report_order sample_accounts \<and>
   (\<exists>rows. AccountsTable (Some sample_accounts) = Some (101, rows) \<and> length rows = 100) \<and>
   suspicion_score (sample_accounts ! 100) \<le> suspicion_score (sample_accounts ! 99)"
proof -
  have len: "length sample_accounts = 101"
    by (simp add: sample_accounts_def)
  then have ne: "sample_accounts \<noteq> []"
    by auto
  have "sorted_wrt (<) [0..<101::nat]"
    by (rule sorted_wrt_upt)
  then have srt: "sorted_wrt report_order sample_accounts"
    unfolding sample_accounts_def sorted_wrt_map
    by (rule sorted_wrt_mono_rel [rotated]) (simp add: report_order_def)
  have "take 100 sample_accounts ! 99 = sample_accounts ! 99"
    by simp
  moreover have "99 < length (take 100 sample_accounts)"
    using len by simp
  ultimately have a: "sample_accounts ! 99 \<in> set (take 100 sample_accounts)"
    by (metis nth_mem)
  have "drop 100 sample_accounts ! 0 = sample_accounts ! 100"
    using len by simp
  moreover have "0 < length (drop 100 sample_accounts)"
    using len by simp
  ultimately have b: "sample_accounts ! 100 \<in> set (drop 100 sample_accounts)"
    by (metis nth_mem)
  note inst = AccountsTable_first_100 [of sample_accounts]
  from inst ne obtain rows where
    "AccountsTable (Some sample_accounts) = Some (length sample_accounts, rows)"
    "length rows = min 100 (length sample_accounts)"
    by blast
  with len have rows: "\<exists>rows. AccountsTable (Some sample_accounts) = Some (101, rows) \<and> length rows = 100"
    by simp
  from inst srt have "\<forall>a \<in> set (take 100 sample_accounts). \<forall>b \<in> set (drop 100 sample_accounts).
         suspicion_score b \<le> suspicion_score a"
    by blast
  with a b have "suspicion_score (sample_accounts ! 100) \<le> suspicion_score (sample_accounts ! 99)"
    by blast
  with ne srt rows show ?thesis
    by blast
qed

subsection \<open>RingPanel: the order of the ring cards\<close>

text \<open>An entry of the report's \<open>fraud_rings\<close>.\<close>

record fraud_ring =
  ring_id :: string
  pattern_type :: string
  member_accounts :: "string list"
  risk_score :: real

text \<open>
  \<open>Array.prototype.sort\<close> with a comparator is stable: it orders the elements by the
  comparator and keeps elements that compare equal in their order. With a consistent
  comparator that result is unique; the model computes it by inserting each element,
  from the right, before the first element it does not come after.
\<close>

fun insert_sorted :: "('a \<Rightarrow> 'a \<Rightarrow> real) \<Rightarrow> 'a \<Rightarrow> 'a list \<Rightarrow> 'a list" where
  "insert_sorted cmp x [] = [x]"
| "insert_sorted cmp x (y # ys) =
     (if cmp x y \<le> 0 then x # y # ys else y # insert_sorted cmp x ys)"

definition array_sort :: "('a \<Rightarrow> 'a \<Rightarrow> real) \<Rightarrow> 'a list \<Rightarrow> 'a list" where
  "array_sort cmp xs = foldr (insert_sorted cmp) xs []"

text \<open>
  \<^verbatim>\<open>
  const PATTERN_ICONS = { cycle: ..., smurfing: ..., shell_network: ... }
  export default function RingPanel({ rings }) {
    const [active, setActive] = useState(null)
    const sorted = [...rings].sort((a, b) => b.risk_score - a.risk_score)
    const scoreClass = (s) => s >= 80 ? styles.high : s >= 55 ? styles.med : styles.low
  \<close>
  The icons are named by their pattern; \<open>icon_unknown\<close> is the fallback
  \<open>PATTERN_ICONS[ring.pattern_type] || '?'\<close>. \<open>active\<close> is the ring id of the card the
  user opened, if any; it only decides which card shows its member list. The source's
  \<open>sorted\<close> is \<open>ring_sorted\<close> here.
\<close>

datatype score_style = high | med | low

datatype pattern_icon = icon_cycle | icon_smurfing | icon_shell_network | icon_unknown

definition PATTERN_ICONS :: "string \<Rightarrow> pattern_icon" where
  "PATTERN_ICONS t =
     (if t = ''cycle'' then icon_cycle
      else if t = ''smurfing'' then icon_smurfing
      else if t = ''shell_network'' then icon_shell_network
      else icon_unknown)"

definition scoreClass :: "real \<Rightarrow> score_style" where
  "scoreClass s = (if s \<ge> 80 then high else if s \<ge> 55 then med else low)"

definition ring_sorted :: "fraud_ring list \<Rightarrow> fraud_ring list" where
  "ring_sorted rings = array_sort (\<lambda>a b. risk_score b - risk_score a) rings"

record ring_card =
  card_key :: string
  card_active :: bool
  card_ring_id :: string
  card_score :: real
  card_score_style :: score_style
  card_icon :: pattern_icon
  card_pattern :: string
  card_member_count :: nat
  card_members :: "string list"

definition ring_card_of :: "string option \<Rightarrow> fraud_ring \<Rightarrow> ring_card" where
  "ring_card_of active ring =
     \<lparr> card_key = ring_id ring,
       card_active = (active = Some (ring_id ring)),
       card_ring_id = ring_id ring,
       card_score = risk_score ring,
       card_score_style = scoreClass (risk_score ring),
       card_icon = PATTERN_ICONS (pattern_type ring),
       card_pattern = underscores_to_spaces (pattern_type ring),
       card_member_count = length (member_accounts ring),
       card_members = member_accounts ring \<rparr>"

text \<open>
  The panel: the badge (\<open>rings.length\<close>) and the cards of the sorted list, in order. An
  empty list of cards stands for the message that no ring was detected.
\<close>

definition RingPanel :: "string option \<Rightarrow> fraud_ring list \<Rightarrow> nat \<times> ring_card list" where
  "RingPanel active rings = (length rings, map (ring_card_of active) (ring_sorted rings))"

lemma array_sort_Cons: "array_sort cmp (x # xs) = insert_sorted cmp x (array_sort cmp xs)"
  by (simp add: array_sort_def)

lemma array_sort_sorted_id:
  "sorted_wrt (\<lambda>a b. cmp a b \<le> 0) xs \<Longrightarrow> array_sort cmp xs = xs"
proof (induction xs)
  case Nil
  show ?case by (simp add: array_sort_def)
next
  case (Cons x xs)
  then have "array_sort cmp xs = xs"
    by simp
  then have "array_sort cmp (x # xs) = insert_sorted cmp x xs"
    by (simp add: array_sort_Cons)
  also have "\<dots> = x # xs"
    using Cons.prems by (cases xs) simp_all
  finally show ?case .
qed

text \<open>
  The comparator \<open>(a, b) => key(b) - key(a)\<close> makes the sort the stable sort by
  descending key: the result is a permutation of the list, is ordered by descending key,
  and keeps the elements of equal key in their order.
\<close>

lemma insert_sorted_insort_key:
  "insert_sorted (\<lambda>a b. key b - key a) x ys = insort_key (\<lambda>r. - key r) x ys"
  by (induction ys) simp_all

lemma array_sort_sort_key:
  "array_sort (\<lambda>a b. key b - key a) xs = sort_key (\<lambda>r. - key r) xs"
  by (induction xs) (simp_all add: array_sort_def insert_sorted_insort_key sort_key_def)

lemma ring_sorted_stable_sort:
  "mset (ring_sorted rings) = mset rings"
  "sorted_wrt (\<lambda>a b. risk_score b \<le> risk_score a) (ring_sorted rings)"
  "filter (\<lambda>r. risk_score r = s) (ring_sorted rings) = filter (\<lambda>r. risk_score r = s) rings"
proof -
  have eq: "ring_sorted rings = sort_key (\<lambda>r. - risk_score r) rings"
    unfolding ring_sorted_def by (rule array_sort_sort_key)
  show "mset (ring_sorted rings) = mset rings"
    by (simp add: eq)
  have "sorted (map (\<lambda>r. - risk_score r) (sort_key (\<lambda>r. - risk_score r) rings))"
    by (rule sorted_sort_key)
  then show "sorted_wrt (\<lambda>a b. risk_score b \<le> risk_score a) (ring_sorted rings)"
    by (simp add: eq sorted_wrt_map)
  have "filter (\<lambda>r. - risk_score r = - s) (sort_key (\<lambda>r. - risk_score r) rings) =
      filter (\<lambda>r. - risk_score r = - s) rings"
    by (rule sort_key_stable)
  then show "filter (\<lambda>r. risk_score r = s) (ring_sorted rings) = filter (\<lambda>r. risk_score r = s) rings"
    by (simp add: eq)
qed

text \<open>
  Claim C5. When the \<open>risk_score\<close> values of the rings are non-increasing in list order,
  RingPanel's sort returns the list unchanged, so the cards are shown in the order of
  the report: the displayed ring ids are the report's ring ids, in the same order.
\<close>

theorem RingPanel_keeps_report_order:
  assumes "sorted_wrt (\<lambda>a b. risk_score b \<le> risk_score a) rings"
  shows "ring_sorted rings = rings \<and>
         map card_ring_id (snd (RingPanel active rings)) = map ring_id rings"
proof -
  from assms have "sorted_wrt (\<lambda>a b. risk_score b - risk_score a \<le> 0) rings"
    by simp
  then have "ring_sorted rings = rings"
    unfolding ring_sorted_def by (rule array_sort_sorted_id)
  then show ?thesis
    by (simp add: RingPanel_def ring_card_of_def comp_def)
qed

text \<open>Three rings in report order, two of them with the same score.\<close>

definition sample_rings :: "fraud_ring list" where
  "sample_rings =
     [\<lparr> ring_id = ''R001'', pattern_type = ''cycle'', member_accounts = [''A'', ''B'', ''C''],
        risk_score = 95.3 \<rparr>,
      \<lparr> ring_id = ''R002'', pattern_type = ''smurfing'', member_accounts = [''H''],
        risk_score = 80 \<rparr>,
      \<lparr> ring_id = ''R003'', pattern_type = ''shell_network'',
        member_accounts = [''P'', ''X1'', ''X2'', ''Q''], risk_score = 80 \<rparr>]"

theorem RingPanel_keeps_report_order_witness:
  "sorted_wrt (\<lambda>a b. risk_score b \<le> risk_score a) sample_rings \<and>
   ring_sorted sample_rings = sample_rings \<and>
   map card_ring_id (snd (RingPanel None sample_rings)) = [''R001'', ''R002'', ''R003'']"
proof -
  have srt: "sorted_wrt (\<lambda>a b. risk_score b \<le> risk_score a) sample_rings"
    by (simp add: sample_rings_def)
  have "map ring_id sample_rings = [''R001'', ''R002'', ''R003'']"
    by (simp add: sample_rings_def)
  with RingPanel_keeps_report_order [OF srt, of None] srt show ?thesis
    by simp
qed

subsection \<open>GraphPanel: the two edge layers\<close>

text \<open>
  A node of the graph payload (its \<open>id\<close> is the field \<open>node_id\<close>) and an edge. The
  payload names the endpoints of an edge by node id; d3's link force replaces each id by
  the node object with that id. The component reads an endpoint of either form with
  \<open>typeof e.source === 'object' ? e.source.id : e.source\<close>.
\<close>

record graph_node =
  node_id :: string
  tx_in :: nat
  tx_out :: nat
  total_in :: real
  total_out :: real
  suspicious :: bool

datatype endpoint = Obj graph_node | Key string

record graph_edge =
  source :: endpoint
  target :: endpoint

record graph_payload =
  nodes :: "graph_node list"
  edges :: "graph_edge list"

fun endpoint_id :: "endpoint \<Rightarrow> string" where
  "endpoint_id (Obj n) = node_id n"
| "endpoint_id (Key k) = k"

text \<open>
  \<open>new Map(pairs)\<close> sets the pairs in order, so a later pair with the same key replaces
  an earlier one; \<open>has\<close> asks whether a key is set.
\<close>

definition new_Map :: "('k \<times> 'v) list \<Rightarrow> ('k \<rightharpoonup> 'v)" where
  "new_Map pairs = fold (\<lambda>(k, v) m. m(k \<mapsto> v)) pairs Map.empty"

definition has :: "('k \<rightharpoonup> 'v) \<Rightarrow> 'k \<Rightarrow> bool" where
  "has m k = (m k \<noteq> None)"

definition suspiciousMap :: "suspicious_account list \<Rightarrow> (string \<rightharpoonup> suspicious_account)" where
  "suspiciousMap suspiciousAccounts = new_Map (map (\<lambda>s. (account_id s, s)) suspiciousAccounts)"

text \<open>
  \<^verbatim>\<open>
  const normalEdges = edges.filter(e => {
    const src = typeof e.source === 'object' ? e.source.id : e.source
    const tgt = typeof e.target === 'object' ? e.target.id : e.target
    return !suspiciousMap.has(src) && !suspiciousMap.has(tgt)
  })
  const fraudEdges = edges.filter(e => {
    ...
    return suspiciousMap.has(src) || suspiciousMap.has(tgt)
  })
  \<close>
\<close>

definition normalEdges :: "(string \<rightharpoonup> suspicious_account) \<Rightarrow> graph_edge list \<Rightarrow> graph_edge list" where
  "normalEdges m es =
     filter (\<lambda>e. let src = endpoint_id (source e); tgt = endpoint_id (target e)
                 in \<not> has m src \<and> \<not> has m tgt) es"

definition fraudEdges :: "(string \<rightharpoonup> suspicious_account) \<Rightarrow> graph_edge list \<Rightarrow> graph_edge list" where
  "fraudEdges m es =
     filter (\<lambda>e. let src = endpoint_id (source e); tgt = endpoint_id (target e)
                 in has m src \<or> has m tgt) es"

text \<open>
  The four layers the effect draws, bottom to top: normal edges, fraud edges, normal
  nodes, suspicious nodes. \<open>edges\<close> are the copies of the payload's edges
  (\<open>graphData.edges.map(e => ({ ...e }))\<close>) after the simulation was built on them;
  what d3's link force does to an edge then (resolving its endpoints) is the parameter
  \<open>link\<close>.
\<close>

record graph_layers =
  layer_normal_edges :: "graph_edge list"
  layer_fraud_edges :: "graph_edge list"
  layer_normal_nodes :: "graph_node list"
  layer_susp_nodes :: "graph_node list"

definition GraphPanel ::
  "(graph_edge \<Rightarrow> graph_edge) \<Rightarrow> graph_payload \<Rightarrow> suspicious_account list \<Rightarrow> graph_layers" where
  "GraphPanel link graphData suspiciousAccounts =
     (let m = suspiciousMap suspiciousAccounts;
          nodes = nodes graphData;
          edges = map link (edges graphData)
      in \<lparr> layer_normal_edges = normalEdges m edges,
           layer_fraud_edges = fraudEdges m edges,
           layer_normal_nodes = filter (\<lambda>d. \<not> suspicious d) nodes,
           layer_susp_nodes = filter (\<lambda>d. suspicious d) nodes \<rparr>)"

lemma fold_map_upd_dom:
  "fold (\<lambda>(k, v) m. m(k \<mapsto> v)) pairs m0 k \<noteq> None \<longleftrightarrow> k \<in> fst ` set pairs \<or> m0 k \<noteq> None"
  by (induction pairs arbitrary: m0) (auto split: prod.splits)

lemma has_new_Map: "has (new_Map pairs) k \<longleftrightarrow> k \<in> fst ` set pairs"
  unfolding has_def new_Map_def fold_map_upd_dom by simp

lemma has_suspiciousMap:
  "has (suspiciousMap accs) k \<longleftrightarrow> k \<in> account_id ` set accs"
  by (simp add: suspiciousMap_def has_new_Map image_image)

lemma mset_filter_split: "mset (filter (\<lambda>x. \<not> P x) xs) + mset (filter P xs) = mset xs"
  by (induction xs) simp_all

text \<open>
  Claim C8. The normal-edge layer and the fraud-edge layer partition the edge list: the
  fraud layer holds exactly the edges with at least one endpoint id among the ids of
  \<open>suspicious_accounts\<close>, the normal layer exactly the edges with neither, both in
  payload order, and together they hold every edge once. The link force keeps the id of
  each endpoint (it replaces an id by the node of that id).
\<close>

theorem GraphPanel_edge_layers_partition:
  assumes "\<And>e. endpoint_id (source (link e)) = endpoint_id (source e)"
    and "\<And>e. endpoint_id (target (link e)) = endpoint_id (target e)"
  shows
    "layer_fraud_edges (GraphPanel link graphData accs) =
       map link (filter (\<lambda>e. endpoint_id (source e) \<in> account_id ` set accs \<or>
                            endpoint_id (target e) \<in> account_id ` set accs) (edges graphData)) \<and>
     layer_normal_edges (GraphPanel link graphData accs) =
       map link (filter (\<lambda>e. endpoint_id (source e) \<notin> account_id ` set accs \<and>
                            endpoint_id (target e) \<notin> account_id ` set accs) (edges graphData)) \<and>
     mset (layer_normal_edges (GraphPanel link graphData accs)) +
       mset (layer_fraud_edges (GraphPanel link graphData accs)) = mset (map link (edges graphData)) \<and>
     set (layer_normal_edges (GraphPanel link graphData accs)) \<inter>
       set (layer_fraud_edges (GraphPanel link graphData accs)) = {}"
proof -
  let ?m = "suspiciousMap accs" and ?es = "map link (edges graphData)"
  let ?ids = "account_id ` set accs"
  have fraud: "layer_fraud_edges (GraphPanel link graphData accs) = fraudEdges ?m ?es"
    and normal: "layer_normal_edges (GraphPanel link graphData accs) = normalEdges ?m ?es"
    by (simp_all add: GraphPanel_def Let_def)
  have f: "fraudEdges ?m ?es =
       map link (filter (\<lambda>e. endpoint_id (source e) \<in> ?ids \<or> endpoint_id (target e) \<in> ?ids)
         (edges graphData))"
    by (simp add: fraudEdges_def Let_def filter_map comp_def has_suspiciousMap assms)
  have n: "normalEdges ?m ?es =
       map link (filter (\<lambda>e. endpoint_id (source e) \<notin> ?ids \<and> endpoint_id (target e) \<notin> ?ids)
         (edges graphData))"
    by (simp add: normalEdges_def Let_def filter_map comp_def has_suspiciousMap assms)
  have nf: "normalEdges ?m ?es =
       filter (\<lambda>e. \<not> (has ?m (endpoint_id (source e)) \<or> has ?m (endpoint_id (target e)))) ?es"
    by (simp add: normalEdges_def Let_def)
  have ff: "fraudEdges ?m ?es =
       filter (\<lambda>e. has ?m (endpoint_id (source e)) \<or> has ?m (endpoint_id (target e))) ?es"
    by (simp add: fraudEdges_def Let_def)
  have all: "mset (normalEdges ?m ?es) + mset (fraudEdges ?m ?es) = mset ?es"
    unfolding nf ff by (rule mset_filter_split)
  have disj: "set (normalEdges ?m ?es) \<inter> set (fraudEdges ?m ?es) = {}"
    unfolding nf ff by auto
  from f n all disj show ?thesis
    unfolding fraud normal by simp
qed

text \<open>
  A payload of four nodes and two edges, with \<open>A\<close> the one suspicious account, and a link
  function that resolves an endpoint to a node object of the same id.
\<close>

definition sample_node :: "string \<Rightarrow> graph_node" where
  "sample_node k =
     \<lparr> node_id = k, tx_in = 1, tx_out = 1, total_in = 10, total_out = 10, suspicious = (k = ''A'') \<rparr>"

definition sample_link :: "graph_edge \<Rightarrow> graph_edge" where
  "sample_link e =
     e\<lparr> source := Obj (sample_node (endpoint_id (source e))),
        target := Obj (sample_node (endpoint_id (target e))) \<rparr>"

definition sample_graph :: graph_payload where
  "sample_graph =
     \<lparr> nodes = map sample_node [''A'', ''B'', ''C'', ''D''],
       edges = [\<lparr> source = Key ''A'', target = Key ''B'' \<rparr>,
                \<lparr> source = Key ''C'', target = Key ''D'' \<rparr>] \<rparr>"

definition sample_suspicious :: "suspicious_account list" where
  "sample_suspicious =
     [\<lparr> account_id = ''A'', suspicion_score = 91, acct_ring_id = Some ''R001'',
        detected_patterns = [''cycle_length_3''] \<rparr>]"

theorem GraphPanel_edge_layers_partition_witness:
  "(\<forall>e. endpoint_id (source (sample_link e)) = endpoint_id (source e)) \<and>
   (\<forall>e. endpoint_id (target (sample_link e)) = endpoint_id (target e)) \<and>
   layer_fraud_edges (GraphPanel sample_link sample_graph sample_suspicious) =
     [\<lparr> source = Obj (sample_node ''A''), target = Obj (sample_node ''B'') \<rparr>] \<and>
   layer_normal_edges (GraphPanel sample_link sample_graph sample_suspicious) =
     [\<lparr> source = Obj (sample_node ''C''), target = Obj (sample_node ''D'') \<rparr>]"
proof -
  have s: "endpoint_id (source (sample_link e)) = endpoint_id (source e)" for e
    by (simp add: sample_link_def sample_node_def)
  have t: "endpoint_id (target (sample_link e)) = endpoint_id (target e)" for e
    by (simp add: sample_link_def sample_node_def)
  have ids: "account_id ` set sample_suspicious = {''A''}"
    by (simp add: sample_suspicious_def)
  from GraphPanel_edge_layers_partition [of sample_link sample_graph sample_suspicious, OF s t]
  have "layer_fraud_edges (GraphPanel sample_link sample_graph sample_suspicious) =
          [\<lparr> source = Obj (sample_node ''A''), target = Obj (sample_node ''B'') \<rparr>]"
    and "layer_normal_edges (GraphPanel sample_link sample_graph sample_suspicious) =
          [\<lparr> source = Obj (sample_node ''C''), target = Obj (sample_node ''D'') \<rparr>]"
    unfolding ids by (simp_all add: sample_graph_def sample_link_def)
  with s t show ?thesis
    by blast
qed

subsection \<open>Decimal numerals\<close>

text \<open>The decimal digits of a natural number, most significant first.\<close>

definition digit_char :: "nat \<Rightarrow> char" where
  "digit_char d = ''0123456789'' ! d"

fun digits :: "nat \<Rightarrow> string" where
  "digits n = (if n < 10 then [digit_char n] else digits (n div 10) @ [digit_char (n mod 10)])"

declare digits.simps [simp del]
subsection \<open>StatsStrip: the four summary cards\<close>

text \<open>
  A field of the summary object is a number, or undefined when the object lacks it.
  The record is extensible: whatever else the object carries is its \<open>more\<close> part.
\<close>

datatype js_value = Undefined | Number real

record summary =
  total_accounts_analyzed :: js_value
  total_transactions :: js_value
  suspicious_accounts_flagged :: js_value
  fraud_rings_detected :: js_value
  cycles_found :: js_value
  smurfing_hubs_found :: js_value
  processing_time_seconds :: js_value

text \<open>
  What React shows for a child: nothing for undefined, the text of a string, a number.
\<close>

datatype child = NoChild | TextChild string | NumberChild real

fun as_child :: "js_value \<Rightarrow> child" where
  "as_child Undefined = NoChild"
| "as_child (Number x) = NumberChild x"

text \<open>
  The two conversions of a number to a string are the runtime's: \<open>num_str\<close> is the
  conversion a template literal applies, \<open>locale_str\<close> is \<open>toLocaleString()\<close>, which
  depends on the browser's locale. Both are parameters. A template literal writes
  \<open>undefined\<close> for an undefined value; \<open>x?.toLocaleString()\<close> is undefined for it.
\<close>

fun template :: "(real \<Rightarrow> string) \<Rightarrow> js_value \<Rightarrow> string" where
  "template num_str Undefined = ''undefined''"
| "template num_str (Number x) = num_str x"

fun toLocaleString_opt :: "(real \<Rightarrow> string) \<Rightarrow> js_value \<Rightarrow> child" where
  "toLocaleString_opt locale_str Undefined = NoChild"
| "toLocaleString_opt locale_str (Number x) = TextChild (locale_str x)"

record card =
  card_label :: string
  card_value :: child
  card_sub :: string
  card_accent :: string

text \<open>
  \<^verbatim>\<open>
  const cards = [
    { label: 'Total Accounts', value: summary.total_accounts_analyzed?.toLocaleString(),
      sub: `${summary.total_transactions} transactions`, accent: 'ok' },
    { label: 'Suspicious Accounts', value: summary.suspicious_accounts_flagged,
      sub: 'Flagged by algorithms', accent: 'warn' },
    { label: 'Fraud Rings Detected', value: summary.fraud_rings_detected,
      sub: `${summary.cycles_found} cycles . ${summary.smurfing_hubs_found} smurfing hubs`,
      accent: 'danger' },
    { label: 'Processing Time', value: `${summary.processing_time_seconds}s`,
      sub: 'Graph traversal complete', accent: 'default' },
  ]
  \<close>
  The separator in the third caption is the middle dot, character \<open>0xB7\<close>.
\<close>

definition cards :: "(real \<Rightarrow> string) \<Rightarrow> (real \<Rightarrow> string) \<Rightarrow> 'a summary_scheme \<Rightarrow> card list" where
  "cards num_str locale_str summary =
     [\<lparr> card_label = ''Total Accounts'',
        card_value = toLocaleString_opt locale_str (total_accounts_analyzed summary),
        card_sub = template num_str (total_transactions summary) @ '' transactions'',
        card_accent = ''ok'' \<rparr>,
      \<lparr> card_label = ''Suspicious Accounts'',
        card_value = as_child (suspicious_accounts_flagged summary),
        card_sub = ''Flagged by algorithms'',
        card_accent = ''warn'' \<rparr>,
      \<lparr> card_label = ''Fraud Rings Detected'',
        card_value = as_child (fraud_rings_detected summary),
        card_sub = template num_str (cycles_found summary) @ '' cycles '' @ [CHR 0xB7] @ '' ''
                   @ template num_str (smurfing_hubs_found summary) @ '' smurfing hubs'',
        card_accent = ''danger'' \<rparr>,
      \<lparr> card_label = ''Processing Time'',
        card_value = TextChild (template num_str (processing_time_seconds summary) @ ''s''),
        card_sub = ''Graph traversal complete'',
        card_accent = ''default'' \<rparr>]"

text \<open>
  The strip renders one card per element of \<open>cards\<close>, keyed by its index
  (\<open>cards.map((c, i) => <div key={i} ...>)\<close>), each showing label, value and caption.
\<close>

definition StatsStrip :: "(real \<Rightarrow> string) \<Rightarrow> (real \<Rightarrow> string) \<Rightarrow> 'a summary_scheme \<Rightarrow> (nat \<times> card) list" where
  "StatsStrip num_str locale_str summary = enumerate 0 (cards num_str locale_str summary)"

text \<open>
  Claim C7. For a summary that holds the seven fields of the contract, StatsStrip builds
  exactly four cards: their values are the locale-formatted \<open>total_accounts_analyzed\<close>,
  \<open>suspicious_accounts_flagged\<close>, \<open>fraud_rings_detected\<close>, and
  \<open>processing_time_seconds\<close> followed by \<open>s\<close>; their captions are built from
  \<open>total_transactions\<close>, \<open>cycles_found\<close> and \<open>smurfing_hubs_found\<close>. Two summary
  objects that agree on the seven fields render identically, whatever else they hold.
\<close>

theorem StatsStrip_four_cards:
  fixes s :: "'a summary_scheme" and s' :: "'b summary_scheme"
  shows
  "(total_accounts_analyzed s = Number a \<and> total_transactions s = Number t \<and>
    suspicious_accounts_flagged s = Number f \<and> fraud_rings_detected s = Number r \<and>
    cycles_found s = Number c \<and> smurfing_hubs_found s = Number h \<and>
    processing_time_seconds s = Number p \<longrightarrow>
      length (StatsStrip num_str locale_str s) = 4 \<and>
      map fst (StatsStrip num_str locale_str s) = [0, 1, 2, 3] \<and>
      map (card_label \<circ> snd) (StatsStrip num_str locale_str s) =
        [''Total Accounts'', ''Suspicious Accounts'', ''Fraud Rings Detected'', ''Processing Time''] \<and>
      map (card_value \<circ> snd) (StatsStrip num_str locale_str s) =
        [TextChild (locale_str a), NumberChild f, NumberChild r, TextChild (num_str p @ ''s'')] \<and>
      map (card_sub \<circ> snd) (StatsStrip num_str locale_str s) =
        [num_str t @ '' transactions'', ''Flagged by algorithms'',
         num_str c @ '' cycles '' @ [CHR 0xB7] @ '' '' @ num_str h @ '' smurfing hubs'',
         ''Graph traversal complete'']) \<and>
   (total_accounts_analyzed s = total_accounts_analyzed s' \<and>
    total_transactions s = total_transactions s' \<and>
    suspicious_accounts_flagged s = suspicious_accounts_flagged s' \<and>
    fraud_rings_detected s = fraud_rings_detected s' \<and>
    cycles_found s = cycles_found s' \<and>
    smurfing_hubs_found s = smurfing_hubs_found s' \<and>
    processing_time_seconds s = processing_time_seconds s' \<longrightarrow>
      StatsStrip num_str locale_str s = StatsStrip num_str locale_str s')"
  by (simp add: StatsStrip_def cards_def)
text \<open>
  A summary, and the same summary as an object with one more field; numbers are written
  in decimal (the sample values are whole numbers).
\<close>

record summary_with_rejects = summary +
  rejected_rows :: nat

definition sample_num_str :: "real \<Rightarrow> string" where
  "sample_num_str x = digits (nat \<lfloor>x\<rfloor>)"

definition sample_summary :: summary where
  "sample_summary =
     \<lparr> total_accounts_analyzed = Number 120, total_transactions = Number 560,
       suspicious_accounts_flagged = Number 7, fraud_rings_detected = Number 2,
       cycles_found = Number 1, smurfing_hubs_found = Number 1,
       processing_time_seconds = Number 3 \<rparr>"

definition sample_summary_more :: summary_with_rejects where
  "sample_summary_more =
     \<lparr> total_accounts_analyzed = Number 120, total_transactions = Number 560,
       suspicious_accounts_flagged = Number 7, fraud_rings_detected = Number 2,
       cycles_found = Number 1, smurfing_hubs_found = Number 1,
       processing_time_seconds = Number 3, rejected_rows = 4 \<rparr>"

theorem StatsStrip_four_cards_witness:
  "length (StatsStrip sample_num_str sample_num_str sample_summary) = 4 \<and>
   map (card_value \<circ> snd) (StatsStrip sample_num_str sample_num_str sample_summary) =
     [TextChild ''120'', NumberChild 7, NumberChild 2, TextChild ''3s''] \<and>
   map (card_sub \<circ> snd) (StatsStrip sample_num_str sample_num_str sample_summary) =
     [''560 transactions'', ''Flagged by algorithms'',
      ''1 cycles '' @ [CHR 0xB7] @ '' 1 smurfing hubs'', ''Graph traversal complete''] \<and>
   StatsStrip sample_num_str sample_num_str sample_summary =
     StatsStrip sample_num_str sample_num_str sample_summary_more"
proof -
  have n: "sample_num_str 120 = ''120''" "sample_num_str 560 = ''560''"
    "sample_num_str 1 = ''1''" "sample_num_str 3 = ''3''"
    by (simp_all add: sample_num_str_def digits.simps digit_char_def)
  have fields: "total_accounts_analyzed sample_summary = Number 120 \<and>
      total_transactions sample_summary = Number 560 \<and>
      suspicious_accounts_flagged sample_summary = Number 7 \<and>
      fraud_rings_detected sample_summary = Number 2 \<and>
      cycles_found sample_summary = Number 1 \<and>
      smurfing_hubs_found sample_summary = Number 1 \<and>
      processing_time_seconds sample_summary = Number 3"
    by (simp add: sample_summary_def)
  have same: "total_accounts_analyzed sample_summary = total_accounts_analyzed sample_summary_more \<and>
      total_transactions sample_summary = total_transactions sample_summary_more \<and>
      suspicious_accounts_flagged sample_summary = suspicious_accounts_flagged sample_summary_more \<and>
      fraud_rings_detected sample_summary = fraud_rings_detected sample_summary_more \<and>
      cycles_found sample_summary = cycles_found sample_summary_more \<and>
      smurfing_hubs_found sample_summary = smurfing_hubs_found sample_summary_more \<and>
      processing_time_seconds sample_summary = processing_time_seconds sample_summary_more"
    by (simp add: sample_summary_def sample_summary_more_def)
  note inst = StatsStrip_four_cards [of sample_summary 120 560 7 2 1 1 3
      sample_num_str sample_num_str sample_summary_more]
  from inst fields have shape:
    "length (StatsStrip sample_num_str sample_num_str sample_summary) = 4 \<and>
     map (card_value \<circ> snd) (StatsStrip sample_num_str sample_num_str sample_summary) =
       [TextChild (sample_num_str 120), NumberChild 7, NumberChild 2, TextChild (sample_num_str 3 @ ''s'')] \<and>
     map (card_sub \<circ> snd) (StatsStrip sample_num_str sample_num_str sample_summary) =
       [sample_num_str 560 @ '' transactions'', ''Flagged by algorithms'',
        sample_num_str 1 @ '' cycles '' @ [CHR 0xB7] @ '' '' @ sample_num_str 1 @ '' smurfing hubs'',
        ''Graph traversal complete'']"
    by blast
  from inst same have "StatsStrip sample_num_str sample_num_str sample_summary =
     StatsStrip sample_num_str sample_num_str sample_summary_more"
    by blast
  with shape show ?thesis
    unfolding n by simp
qed

section \<open>The consolidator: scores, deduplication and ring identifiers\<close>

text \<open>
  The detection engine (the Python backend behind \<open>/analyze\<close>) is not among the
  sources; only the components that render its report are. The definitions of this
  section follow the specification of the Ring Consolidator and Scorer.
\<close>

subsection \<open>Per-account score\<close>

text \<open>
  Modelled from the spec: the score accumulation of the consolidator, which is missing
  from the sources. Scores start at 0; each contribution \<open>c\<close> updates the current score
  \<open>s\<close> as \<open>s' = s + c * (1 - s/120)\<close>, clamped to \<open>[0, 100]\<close>; contributions are
  applied in a fixed order; the emitted \<open>suspicion_score\<close> is the score rounded to an
  integer.
\<close>

definition clamp_score :: "real \<Rightarrow> real" where
  \<comment> \<open>Modelled from the spec: the clamp of a score to [0, 100].\<close>
  "clamp_score x = max 0 (min 100 x)"

definition add_contribution :: "real \<Rightarrow> real \<Rightarrow> real" where
  \<comment> \<open>Modelled from the spec: the update s' = s + c * (1 - s/120), clamped.\<close>
  "add_contribution s c = clamp_score (s + c * (1 - s / 120))"

definition accumulate :: "real list \<Rightarrow> real" where
  \<comment> \<open>Modelled from the spec: scores start at 0 and take the contributions in order.\<close>
  "accumulate contributions = fold (\<lambda>c s. add_contribution s c) contributions 0"

definition emitted_score :: "real list \<Rightarrow> int" where
  \<comment> \<open>Modelled from the spec: the emitted suspicion_score, rounded to an integer.\<close>
  "emitted_score contributions = round (accumulate contributions)"

lemma clamp_score_range: "0 \<le> clamp_score x \<and> clamp_score x \<le> 100"
  by (simp add: clamp_score_def)

lemma fold_add_contribution_range:
  "0 \<le> s \<Longrightarrow> s \<le> 100 \<Longrightarrow>
   0 \<le> fold (\<lambda>c s. add_contribution s c) cs s \<and> fold (\<lambda>c s. add_contribution s c) cs s \<le> 100"
proof (induction cs arbitrary: s)
  case Nil
  then show ?case by simp
next
  case (Cons c cs)
  have "0 \<le> add_contribution s c" and "add_contribution s c \<le> 100"
    using clamp_score_range [of "s + c * (1 - s / 120)"] by (simp_all add: add_contribution_def)
  then show ?case
    using Cons.IH [of "add_contribution s c"] by simp
qed

lemma accumulate_range: "0 \<le> accumulate cs \<and> accumulate cs \<le> 100"
  unfolding accumulate_def by (rule fold_add_contribution_range) simp_all

lemma add_contribution_grows:
  assumes "0 \<le> s" and "s \<le> 100" and "0 \<le> c"
  shows "s \<le> add_contribution s c"
proof -
  from assms have "0 \<le> 1 - s / 120"
    by simp
  with assms(3) have "0 \<le> c * (1 - s / 120)"
    by (rule mult_nonneg_nonneg)
  then have "s \<le> s + c * (1 - s / 120)"
    by simp
  with assms(1,2) show ?thesis
    by (simp add: add_contribution_def clamp_score_def)
qed

text \<open>
  Claim C1. Every emitted suspicion score is an integer between 0 and 100. The update
  \<open>s' = s + c * (1 - s/120)\<close>, clamped to \<open>[0, 100]\<close>, keeps a score \<open>s\<close> of \<open>[0, 100]\<close>
  in \<open>[0, 100]\<close> for every non-negative contribution \<open>c\<close>; the score does not decrease.
\<close>

theorem suspicion_score_bounds:
  "0 \<le> emitted_score contributions \<and> emitted_score contributions \<le> 100 \<and>
   (0 \<le> s \<and> s \<le> 100 \<and> 0 \<le> c \<longrightarrow>
      0 \<le> add_contribution s c \<and> add_contribution s c \<le> 100 \<and> s \<le> add_contribution s c)"
proof -
  have lo: "0 \<le> accumulate contributions" and hi: "accumulate contributions \<le> 100"
    using accumulate_range [of contributions] by simp_all
  have "round (0::real) \<le> round (accumulate contributions)"
    using lo by (rule round_mono)
  moreover have "round (accumulate contributions) \<le> round (100::real)"
    using hi by (rule round_mono)
  ultimately have emitted: "0 \<le> emitted_score contributions \<and> emitted_score contributions \<le> 100"
    by (simp add: emitted_score_def)
  have "0 \<le> add_contribution s c \<and> add_contribution s c \<le> 100"
    using clamp_score_range [of "s + c * (1 - s / 120)"] by (simp add: add_contribution_def)
  with emitted add_contribution_grows [of s c] show ?thesis
    by blast
qed

text \<open>
  A length-3 cycle with the 72-hour bonus and amount decay (contributions 85, 8 and 6):
  the second contribution already reaches the cap.
\<close>

theorem suspicion_score_bounds_witness:
  "add_contribution 0 85 = 85 \<and> add_contribution 85 8 = 87 + 1 / 3 \<and>
   85 \<le> add_contribution 85 8 \<and> add_contribution 85 8 \<le> 100 \<and>
   0 \<le> emitted_score [85, 8, 6] \<and> emitted_score [85, 8, 6] \<le> 100"
proof -
  have a: "add_contribution 0 85 = 85" and b: "add_contribution 85 8 = 87 + 1 / 3"
    by (simp_all add: add_contribution_def clamp_score_def)
  have h: "(0::real) \<le> 85 \<and> (85::real) \<le> 100 \<and> (0::real) \<le> 8"
    by simp
  from suspicion_score_bounds [of "[85, 8, 6]" 85 8] h a b show ?thesis
    by simp
qed

subsection \<open>Ring identifiers\<close>

text \<open>
  Modelled from the spec: the assignment of ring identifiers, which is missing from the
  sources. After deduplication the surviving rings are sorted by descending
  \<open>risk_score\<close>, then by ascending smallest-member id, and renumbered \<open>R001\<close>, \<open>R002\<close>,
  ... in that order; the report's \<open>fraud_rings\<close> is this list. An identifier is \<open>R\<close>
  and the number in decimal, padded with zeros to three digits.
\<close>

definition smallest_member :: "fraud_ring \<Rightarrow> string" where
  \<comment> \<open>Modelled from the spec: the smallest member id of a ring.\<close>
  "smallest_member r = (case member_accounts r of [] \<Rightarrow> [] | m # ms \<Rightarrow> fold min ms m)"

definition ring_sort_key :: "fraud_ring \<Rightarrow> real \<times> string" where
  \<comment> \<open>Modelled from the spec: descending risk_score, then ascending smallest-member id.\<close>
  "ring_sort_key r = (- risk_score r, smallest_member r)"

definition ring_label :: "nat \<Rightarrow> string" where
  \<comment> \<open>Modelled from the spec: the identifier R001, R002, ... of a ring number.\<close>
  "ring_label n = CHR ''R'' # replicate (3 - length (digits n)) CHR ''0'' @ digits n"

fun renumber :: "nat \<Rightarrow> fraud_ring list \<Rightarrow> fraud_ring list" where
  \<comment> \<open>Modelled from the spec: the renumbering, dense and gap-free.\<close>
  "renumber n [] = []"
| "renumber n (r # rs) = r\<lparr>ring_id := ring_label n\<rparr> # renumber (Suc n) rs"

definition emit_rings :: "fraud_ring list \<Rightarrow> fraud_ring list" where
  \<comment> \<open>Modelled from the spec: the surviving rings, sorted and renumbered.\<close>
  "emit_rings survivors = renumber 1 (sort_key ring_sort_key survivors)"

text \<open>What a ring is apart from its identifier.\<close>

definition ring_body :: "fraud_ring \<Rightarrow> string \<times> string list \<times> real" where
  "ring_body r = (pattern_type r, member_accounts r, risk_score r)"

text \<open>The order of the renumbering: descending risk score, ties by ascending smallest member.\<close>

definition ring_before :: "fraud_ring \<Rightarrow> fraud_ring \<Rightarrow> bool" where
  "ring_before a b =
     (risk_score a > risk_score b \<or>
      (risk_score a = risk_score b \<and> smallest_member a \<le> smallest_member b))"

text \<open>The number a string of decimal digits denotes.\<close>

definition digit_value :: "char \<Rightarrow> nat" where
  "digit_value c = of_char c - 48"

definition decimal_value :: "string \<Rightarrow> nat" where
  "decimal_value s = foldl (\<lambda>v c. 10 * v + digit_value c) 0 s"

lemma below_10_cases:
  assumes "d < (10::nat)"
  shows "d = 0 \<or> d = 1 \<or> d = 2 \<or> d = 3 \<or> d = 4 \<or> d = 5 \<or> d = 6 \<or> d = 7 \<or> d = 8 \<or> d = 9"
  using assms by arith

lemma of_char_digit_char: "d < 10 \<Longrightarrow> of_char (digit_char d) = 48 + d"
  using below_10_cases [of d] by (auto simp: digit_char_def)

lemma digit_value_digit_char: "d < 10 \<Longrightarrow> digit_value (digit_char d) = d"
  by (simp add: digit_value_def of_char_digit_char)

lemma decimal_value_snoc: "decimal_value (s @ [c]) = 10 * decimal_value s + digit_value c"
  by (simp add: decimal_value_def)

lemma decimal_value_digits: "decimal_value (digits n) = n"
proof (induction n rule: digits.induct)
  case (1 n)
  show ?case
  proof (cases "n < 10")
    case True
    then show ?thesis
      by (simp add: digits.simps [of n] decimal_value_def digit_value_digit_char)
  next
    case False
    with "1" have "decimal_value (digits (n div 10)) = n div 10"
      by simp
    with False show ?thesis
      by (simp add: digits.simps [of n] decimal_value_snoc digit_value_digit_char)
  qed
qed

lemma decimal_value_zeros: "decimal_value (replicate k CHR ''0'' @ s) = decimal_value s"
proof -
  have zero: "digit_value CHR ''0'' = 0"
    by (simp add: digit_value_def)
  have "foldl (\<lambda>v c. 10 * v + digit_value c) 0 (replicate k CHR ''0'') = 0"
    by (induction k) (simp_all add: zero)
  then show ?thesis
    by (simp add: decimal_value_def)
qed

lemma ring_label_inj: "ring_label m = ring_label n \<Longrightarrow> m = n"
proof -
  assume "ring_label m = ring_label n"
  then have "decimal_value (tl (ring_label m)) = decimal_value (tl (ring_label n))"
    by simp
  then show "m = n"
    by (simp add: ring_label_def decimal_value_zeros decimal_value_digits)
qed

lemma renumber_length [simp]: "length (renumber n rs) = length rs"
  by (induction rs arbitrary: n) simp_all

lemma renumber_ids: "map ring_id (renumber n rs) = map ring_label [n..<n + length rs]"
proof (induction rs arbitrary: n)
  case Nil
  show ?case by simp
next
  case (Cons r rs)
  have "[n..<n + length (r # rs)] = n # [Suc n..<Suc n + length rs]"
    by (simp add: upt_rec)
  with Cons.IH [of "Suc n"] show ?case
    by simp
qed

lemma renumber_body: "map ring_body (renumber n rs) = map ring_body rs"
  by (induction rs arbitrary: n) (simp_all add: ring_body_def)

lemma emit_rings_body_sorted:
  "map ring_body (emit_rings rs) = map ring_body (sort_key ring_sort_key rs)"
  by (simp add: emit_rings_def renumber_body)

lemma sorted_wrt_body:
  assumes body: "\<And>a b a' b'. ring_body a = ring_body a' \<Longrightarrow> ring_body b = ring_body b' \<Longrightarrow> P a b = P a' b'"
    and same: "map ring_body xs = map ring_body ys"
  shows "sorted_wrt P xs = sorted_wrt P ys"
proof -
  from same have "length xs = length ys"
    by (rule map_eq_imp_length_eq)
  then show ?thesis
    using same
  proof (induction xs ys rule: list_induct2)
    case Nil
    show ?case by simp
  next
    case (Cons x xs y ys)
    then have xy: "ring_body x = ring_body y" and rest: "map ring_body xs = map ring_body ys"
      by simp_all
    from rest have img: "ring_body ` set xs = ring_body ` set ys"
      by (metis set_map)
    have "(\<forall>z \<in> set xs. P x z) = (\<forall>w \<in> set ys. P y w)"
    proof
      assume l: "\<forall>z \<in> set xs. P x z"
      show "\<forall>w \<in> set ys. P y w"
      proof
        fix w assume "w \<in> set ys"
        with img obtain z where "z \<in> set xs" and "ring_body z = ring_body w"
          by (metis imageE imageI)
        with l body [OF xy this(2)] show "P y w"
          by simp
      qed
    next
      assume r: "\<forall>w \<in> set ys. P y w"
      show "\<forall>z \<in> set xs. P x z"
      proof
        fix z assume "z \<in> set xs"
        with img obtain w where "w \<in> set ys" and "ring_body z = ring_body w"
          by (metis imageE imageI)
        with r body [OF xy this(2)] show "P x z"
          by simp
      qed
    qed
    with Cons.IH [OF rest] show ?case
      by simp
  qed
qed

lemma sorted_wrt_insort_key_sym:
  assumes sym: "\<And>a b. P a b \<Longrightarrow> P b a"
  shows "sorted_wrt P (insort_key f x xs) = sorted_wrt P (x # xs)"
proof (induction xs)
  case Nil
  show ?case by simp
next
  case (Cons y ys)
  then show ?case
    using sym by (auto simp: set_insort_key)
qed

lemma sorted_wrt_sort_key_sym:
  assumes sym: "\<And>a b. P a b \<Longrightarrow> P b a"
  shows "sorted_wrt P (sort_key f xs) = sorted_wrt P xs"
proof (induction xs)
  case Nil
  show ?case by simp
next
  case (Cons x xs)
  have "sorted_wrt P (sort_key f (x # xs)) = sorted_wrt P (x # sort_key f xs)"
    using sorted_wrt_insort_key_sym [of P f x "sort_key f xs"] sym by (simp add: sort_key_def)
  with Cons.IH show ?case
    by simp
qed

lemma ring_before_body:
  "ring_body a = ring_body a' \<Longrightarrow> ring_body b = ring_body b' \<Longrightarrow> ring_before a b = ring_before a' b'"
  by (simp add: ring_before_def smallest_member_def ring_body_def)

lemma ring_sort_key_le: "ring_sort_key a \<le> ring_sort_key b \<longleftrightarrow> ring_before a b"
  by (auto simp: ring_sort_key_def ring_before_def less_eq_prod_def)

lemma sort_key_ring_before: "sorted_wrt ring_before (sort_key ring_sort_key rs)"
proof -
  have "sorted (map ring_sort_key (sort_key ring_sort_key rs))"
    by (rule sorted_sort_key)
  then show ?thesis
    unfolding sorted_wrt_map ring_sort_key_le .
qed

lemma emit_rings_before: "sorted_wrt ring_before (emit_rings rs)"
  using sorted_wrt_body [of ring_before "emit_rings rs" "sort_key ring_sort_key rs"]
    ring_before_body emit_rings_body_sorted sort_key_ring_before
  by blast

lemma emit_rings_ids: "map ring_id (emit_rings rs) = map ring_label [1..<Suc (length rs)]"
  using renumber_ids [of 1 "sort_key ring_sort_key rs"] by (simp add: emit_rings_def)

lemma emit_rings_mset: "mset (map ring_body (emit_rings rs)) = mset (map ring_body rs)"
  by (simp add: emit_rings_body_sorted)

lemma ring_label_distinct: "distinct (map ring_label [m..<n])"
  by (simp add: distinct_map inj_on_def) (metis ring_label_inj)

lemma ring_label_three_digits:
  assumes "n < 1000"
  shows "ring_label n =
     [CHR ''R'', digit_char (n div 100), digit_char (n div 10 mod 10), digit_char (n mod 10)]"
proof -
  have zero: "digit_char 0 = CHR ''0''"
    by (simp add: digit_char_def)
  have one: "digits k = [digit_char k]" if "k < 10" for k
    using that by (simp add: digits.simps [of k])
  have more: "digits k = digits (k div 10) @ [digit_char (k mod 10)]" if "10 \<le> k" for k
    using that by (simp add: digits.simps [of k])
  consider "n < 10" | "10 \<le> n" "n < 100" | "100 \<le> n"
    by linarith
  then show ?thesis
  proof cases
    case 1
    then show ?thesis
      by (simp add: ring_label_def zero numeral_2_eq_2 one)
  next
    case 2
    then have "n div 10 < 10"
      by simp
    then have "digits n = [digit_char (n div 10), digit_char (n mod 10)]"
      using more [OF 2(1)] one [of "n div 10"] by simp
    with 2 show ?thesis
      by (simp add: ring_label_def zero)
  next
    case 3
    with assms have a: "10 \<le> n" and b: "10 \<le> n div 10" and c: "n div 10 div 10 < 10"
      by simp_all
    have d: "n div 10 div 10 = n div 100"
      by (simp add: div_mult2_eq [symmetric])
    have "digits n = digits (n div 10) @ [digit_char (n mod 10)]"
      using a by (rule more)
    also have "digits (n div 10) = digits (n div 10 div 10) @ [digit_char (n div 10 mod 10)]"
      using b by (rule more)
    also have "digits (n div 10 div 10) = [digit_char (n div 10 div 10)]"
      using c by (rule one)
    finally have "digits n =
        [digit_char (n div 100), digit_char (n div 10 mod 10), digit_char (n mod 10)]"
      unfolding d by simp
    then show ?thesis
      by (simp add: ring_label_def)
  qed
qed

lemma digit_char_less: "a < 10 \<Longrightarrow> b < 10 \<Longrightarrow> digit_char a < digit_char b \<longleftrightarrow> a < b"
  by (simp add: less_char_def of_char_digit_char)

lemma digit_char_eq: "a < 10 \<Longrightarrow> b < 10 \<Longrightarrow> digit_char a = digit_char b \<longleftrightarrow> a = b"
  by (metis digit_value_digit_char)

lemma decimal_order:
  assumes "(i::nat) < j"
  shows "i div 100 < j div 100 \<or>
     (i div 100 = j div 100 \<and>
       (i div 10 mod 10 < j div 10 mod 10 \<or>
        (i div 10 mod 10 = j div 10 mod 10 \<and> i mod 10 < j mod 10)))"
proof -
  have split: "k div 10 = 10 * (k div 100) + k div 10 mod 10" for k :: nat
    using div_mult_mod_eq [of "k div 10" 10] by (simp add: div_mult2_eq [symmetric] mult.commute)
  have hundred: "k div 100 = k div 10 div 10" for k :: nat
    by (simp add: div_mult2_eq [symmetric])
  have whole: "k = 10 * (k div 10) + k mod 10" for k :: nat
    by simp
  from assms have "i div 10 \<le> j div 10"
    by (simp add: div_le_mono)
  then consider "i div 10 < j div 10" | "i div 10 = j div 10"
    by linarith
  then show ?thesis
  proof cases
    case 1
    have "i div 100 \<le> j div 100"
      using assms by (simp add: div_le_mono)
    then consider "i div 100 < j div 100" | "i div 100 = j div 100"
      by linarith
    then show ?thesis
    proof cases
      case 1
      then show ?thesis ..
    next
      case 2
      with \<open>i div 10 < j div 10\<close> split [of i] split [of j]
      have "i div 10 mod 10 < j div 10 mod 10"
        by linarith
      with 2 show ?thesis
        by blast
    qed
  next
    case 2
    with assms whole [of i] whole [of j] have "i mod 10 < j mod 10"
      by linarith
    moreover from 2 have "i div 100 = j div 100"
      using hundred [of i] hundred [of j] by simp
    ultimately show ?thesis
      using 2 by simp
  qed
qed

lemma ring_label_less:
  assumes "i < j" and "j < 1000"
  shows "ring_label i < ring_label j"
proof -
  from assms have i: "i < 1000"
    by simp
  have bi: "i div 100 < 10" "i div 10 mod 10 < 10" "i mod 10 < 10"
    using i by simp_all
  have bj: "j div 100 < 10" "j div 10 mod 10 < 10" "j mod 10 < 10"
    using assms(2) by simp_all
  have "[digit_char (i div 100), digit_char (i div 10 mod 10), digit_char (i mod 10)]
      < [digit_char (j div 100), digit_char (j div 10 mod 10), digit_char (j mod 10)]"
    using decimal_order [OF assms(1)]
    by (simp add: digit_char_less [OF bi(1) bj(1)] digit_char_less [OF bi(2) bj(2)]
        digit_char_less [OF bi(3) bj(3)] digit_char_eq [OF bi(1) bj(1)]
        digit_char_eq [OF bi(2) bj(2)])
  then show ?thesis
    unfolding ring_label_three_digits [OF i] ring_label_three_digits [OF assms(2)] by simp
qed

lemma ring_labels_ascending:
  assumes "n \<le> 999"
  shows "sorted_wrt (<) (map ring_label [1..<Suc n])"
proof -
  have "sorted_wrt (<) [1..<Suc n]"
    by (rule sorted_wrt_upt)
  then have "sorted_wrt (\<lambda>i j. ring_label i < ring_label j) [1..<Suc n]"
  proof (rule sorted_wrt_mono_rel [rotated])
    fix i j
    assume "i \<in> set [1..<Suc n]" and "j \<in> set [1..<Suc n]" and lt: "i < j"
    with assms have "j < 1000"
      by auto
    with lt show "ring_label i < ring_label j"
      by (rule ring_label_less)
  qed
  then show ?thesis
    by (simp add: sorted_wrt_map)
qed
text \<open>
  Claim C2. The emitted rings carry exactly the identifiers \<open>R001\<close> .. \<open>R{N}\<close>, \<open>N\<close> the
  number of surviving rings, without gap or repetition, assigned in order of descending
  \<open>risk_score\<close> (ties by ascending smallest member); the emitted list holds the
  surviving rings, is ordered by ring number, and its \<open>risk_score\<close> is non-increasing.
  Up to 999 rings the identifiers also ascend as strings.
\<close>

theorem ring_ids_dense_and_ordered:
  "length (emit_rings rs) = length rs \<and>
   map ring_id (emit_rings rs) = map ring_label [1..<Suc (length rs)] \<and>
   distinct (map ring_id (emit_rings rs)) \<and>
   mset (map ring_body (emit_rings rs)) = mset (map ring_body rs) \<and>
   sorted_wrt ring_before (emit_rings rs) \<and>
   sorted_wrt (\<lambda>a b. risk_score b \<le> risk_score a) (emit_rings rs) \<and>
   (length rs \<le> 999 \<longrightarrow> sorted_wrt (<) (map ring_id (emit_rings rs)))"
proof -
  have len: "length (emit_rings rs) = length rs"
    by (simp add: emit_rings_def)
  have ids: "map ring_id (emit_rings rs) = map ring_label [1..<Suc (length rs)]"
    by (rule emit_rings_ids)
  have dist: "distinct (map ring_id (emit_rings rs))"
    unfolding ids by (rule ring_label_distinct)
  have bodies: "mset (map ring_body (emit_rings rs)) = mset (map ring_body rs)"
    by (rule emit_rings_mset)
  have before: "sorted_wrt ring_before (emit_rings rs)"
    by (rule emit_rings_before)
  then have risk: "sorted_wrt (\<lambda>a b. risk_score b \<le> risk_score a) (emit_rings rs)"
    by (rule sorted_wrt_mono_rel [rotated]) (auto simp: ring_before_def)
  have strings: "sorted_wrt (<) (map ring_id (emit_rings rs))" if "length rs \<le> 999"
    unfolding ids using that by (rule ring_labels_ascending)
  from len ids dist bodies before risk strings show ?thesis
    by blast
qed

text \<open>Three surviving rings, in the order the detectors produced them.\<close>

definition sample_survivors :: "fraud_ring list" where
  "sample_survivors =
     [\<lparr> ring_id = [], pattern_type = ''smurfing'', member_accounts = [''H''], risk_score = 80 \<rparr>,
      \<lparr> ring_id = [], pattern_type = ''cycle'', member_accounts = [''B'', ''C'', ''A''],
        risk_score = 95.3 \<rparr>,
      \<lparr> ring_id = [], pattern_type = ''shell_network'',
        member_accounts = [''P'', ''X1'', ''X2'', ''D''], risk_score = 80 \<rparr>]"

theorem ring_ids_dense_and_ordered_witness:
  "length sample_survivors \<le> 999 \<and>
   emit_rings sample_survivors =
     [\<lparr> ring_id = ''R001'', pattern_type = ''cycle'', member_accounts = [''B'', ''C'', ''A''],
        risk_score = 95.3 \<rparr>,
      \<lparr> ring_id = ''R002'', pattern_type = ''shell_network'',
        member_accounts = [''P'', ''X1'', ''X2'', ''D''], risk_score = 80 \<rparr>,
      \<lparr> ring_id = ''R003'', pattern_type = ''smurfing'', member_accounts = [''H''],
        risk_score = 80 \<rparr>] \<and>
   sorted_wrt (<) (map ring_id (emit_rings sample_survivors))"
proof -
  have len: "length sample_survivors \<le> 999"
    by (simp add: sample_survivors_def)
  have labels: "ring_label 1 = ''R001''" "ring_label 2 = ''R002''" "ring_label 3 = ''R003''"
    by (simp_all add: ring_label_three_digits digit_char_def)
  then have sucs: "ring_label (Suc 0) = ''R001''" "ring_label (Suc (Suc 0)) = ''R002''"
    "ring_label (Suc (Suc (Suc 0))) = ''R003''"
    by (simp_all add: numeral_2_eq_2 numeral_3_eq_3)
  have "emit_rings sample_survivors =
     [\<lparr> ring_id = ''R001'', pattern_type = ''cycle'', member_accounts = [''B'', ''C'', ''A''],
        risk_score = 95.3 \<rparr>,
      \<lparr> ring_id = ''R002'', pattern_type = ''shell_network'',
        member_accounts = [''P'', ''X1'', ''X2'', ''D''], risk_score = 80 \<rparr>,
      \<lparr> ring_id = ''R003'', pattern_type = ''smurfing'', member_accounts = [''H''],
        risk_score = 80 \<rparr>]"
    by (simp add: emit_rings_def sample_survivors_def ring_sort_key_def smallest_member_def
        less_eq_prod_def less_eq_char_def less_char_def min_def sucs)
  with ring_ids_dense_and_ordered [of sample_survivors] len show ?thesis
    by blast
qed

text \<open>
  On the emitted list RingPanel's sort changes nothing: the cards show \<open>R001\<close>,
  \<open>R002\<close>, ... in this order.
\<close>

lemma RingPanel_on_emitted_rings:
  "map card_ring_id (snd (RingPanel active (emit_rings rs))) = map ring_label [1..<Suc (length rs)]"
proof -
  have "sorted_wrt ring_before (emit_rings rs)"
    by (rule emit_rings_before)
  then have "sorted_wrt (\<lambda>a b. risk_score b - risk_score a \<le> 0) (emit_rings rs)"
    by (rule sorted_wrt_mono_rel [rotated]) (auto simp: ring_before_def)
  then have "ring_sorted (emit_rings rs) = emit_rings rs"
    unfolding ring_sorted_def by (rule array_sort_sorted_id)
  then have "map card_ring_id (snd (RingPanel active (emit_rings rs))) = map ring_id (emit_rings rs)"
    by (simp add: RingPanel_def ring_card_of_def comp_def)
  then show ?thesis
    by (simp only: emit_rings_ids)
qed

subsection \<open>Ring deduplication\<close>

text \<open>
  Modelled from the spec: the deduplication of candidate rings, which is missing from
  the sources. A candidate is a ring with its pattern type, members and risk score (its
  \<open>ring_id\<close> is assigned after deduplication); the candidates are listed in
  construction order. Rings are compared pairwise within the same \<open>pattern_type\<close>. For
  two candidates \<open>A\<close> and \<open>B\<close>, overlap is \<open>|A \<inter> B| / min(|A|, |B|)\<close> over their member
  sets. If the overlap exceeds 0.85, the lower-scoring ring is dropped; ties go to the
  ring with the smaller member count, then to the ring constructed later.
\<close>

definition member_count :: "fraud_ring \<Rightarrow> nat" where
  \<comment> \<open>Modelled from the spec: the number of members |A|.\<close>
  "member_count A = length (remdups (member_accounts A))"

definition shared_count :: "fraud_ring \<Rightarrow> fraud_ring \<Rightarrow> nat" where
  \<comment> \<open>Modelled from the spec: the number of shared members |A Int B|.\<close>
  "shared_count A B =
     length (filter (\<lambda>a. a \<in> set (member_accounts B)) (remdups (member_accounts A)))"

definition overlap :: "fraud_ring \<Rightarrow> fraud_ring \<Rightarrow> real" where
  \<comment> \<open>Modelled from the spec: overlap = |A Int B| / min(|A|, |B|).\<close>
  "overlap A B = real (shared_count A B) / real (min (member_count A) (member_count B))"

text \<open>\<open>lower_ring (j, B) (i, A)\<close>: of the candidates \<open>B\<close> (at position \<open>j\<close>) and \<open>A\<close> (at \<open>i\<close>), \<open>B\<close> is the one to drop.\<close>

definition lower_ring :: "nat \<times> fraud_ring \<Rightarrow> nat \<times> fraud_ring \<Rightarrow> bool" where
  \<comment> \<open>Modelled from the spec: the lower-scoring ring, ties by smaller member count, then construction order.\<close>
  "lower_ring jb ia =
     (let B = snd jb; A = snd ia in
      risk_score B < risk_score A \<or>
      (risk_score B = risk_score A \<and>
        (member_count B < member_count A \<or>
         (member_count B = member_count A \<and> fst ia < fst jb))))"

definition clash :: "nat \<times> fraud_ring \<Rightarrow> nat \<times> fraud_ring \<Rightarrow> bool" where
  \<comment> \<open>Modelled from the spec: two candidates of one pattern_type with overlap above 0.85.\<close>
  "clash ia jb =
     (fst ia \<noteq> fst jb \<and> pattern_type (snd ia) = pattern_type (snd jb) \<and>
      overlap (snd ia) (snd jb) > 0.85)"

definition dropped :: "fraud_ring list \<Rightarrow> nat \<times> fraud_ring \<Rightarrow> bool" where
  \<comment> \<open>Modelled from the spec: a candidate is dropped when it is the lower ring of a clash.\<close>
  "dropped candidates jb =
     list_ex (\<lambda>ia. clash ia jb \<and> lower_ring jb ia) (enumerate 0 candidates)"

definition deduplicate :: "fraud_ring list \<Rightarrow> fraud_ring list" where
  \<comment> \<open>Modelled from the spec: the candidates that are not dropped, in construction order.\<close>
  "deduplicate candidates =
     map snd (filter (\<lambda>jb. \<not> dropped candidates jb) (enumerate 0 candidates))"

text \<open>The report's \<open>fraud_rings\<close>: the survivors, sorted and renumbered.\<close>

definition fraud_rings :: "fraud_ring list \<Rightarrow> fraud_ring list" where
  \<comment> \<open>Modelled from the spec: the report's fraud_rings.\<close>
  "fraud_rings candidates = emit_rings (deduplicate candidates)"

lemma member_count_card: "member_count A = card (set (member_accounts A))"
  unfolding member_count_def by (rule length_remdups_card_conv)

lemma shared_count_card:
  "shared_count A B = card (set (member_accounts A) \<inter> set (member_accounts B))"
proof -
  have "distinct (filter (\<lambda>a. a \<in> set (member_accounts B)) (remdups (member_accounts A)))"
    by simp
  then have "shared_count A B =
      card (set (filter (\<lambda>a. a \<in> set (member_accounts B)) (remdups (member_accounts A))))"
    unfolding shared_count_def by (rule distinct_card [symmetric])
  also have "set (filter (\<lambda>a. a \<in> set (member_accounts B)) (remdups (member_accounts A))) =
      set (member_accounts A) \<inter> set (member_accounts B)"
    by auto
  finally show ?thesis .
qed

lemma overlap_sym: "overlap A B = overlap B A"
  by (simp add: overlap_def shared_count_card member_count_card Int_commute min.commute)

lemma clash_sym: "clash ia jb \<Longrightarrow> clash jb ia"
  by (auto simp: clash_def overlap_sym)

lemma lower_ring_total: "fst ia \<noteq> fst jb \<Longrightarrow> lower_ring jb ia \<or> lower_ring ia jb"
  by (auto simp: lower_ring_def Let_def)

lemma clash_drops_one:
  assumes "ia \<in> set (enumerate 0 cands)" and "jb \<in> set (enumerate 0 cands)" and "clash ia jb"
  shows "dropped cands ia \<or> dropped cands jb"
proof -
  from assms(3) have "fst ia \<noteq> fst jb"
    by (simp add: clash_def)
  then consider "lower_ring jb ia" | "lower_ring ia jb"
    using lower_ring_total by blast
  then show ?thesis
  proof cases
    case 1
    with assms(1,3) have "dropped cands jb"
      unfolding dropped_def list_ex_iff by blast
    then show ?thesis ..
  next
    case 2
    with assms(2) clash_sym [OF assms(3)] have "dropped cands ia"
      unfolding dropped_def list_ex_iff by blast
    then show ?thesis ..
  qed
qed

text \<open>Two rings at different places of a list of rings do not overlap above 0.85 when they have the same pattern type.\<close>

definition apart :: "fraud_ring \<Rightarrow> fraud_ring \<Rightarrow> bool" where
  "apart A B = (pattern_type A \<noteq> pattern_type B \<or> overlap A B \<le> 0.85)"

lemma deduplicate_apart: "sorted_wrt apart (deduplicate cands)"
proof -
  let ?en = "enumerate 0 cands"
  let ?kept = "filter (\<lambda>jb. \<not> dropped cands jb) ?en"
  have "sorted_wrt (<) (map fst ?en)"
    by simp
  then have "sorted_wrt (\<lambda>x y. fst x < fst y) ?en"
    unfolding sorted_wrt_map .
  then have idx: "sorted_wrt (\<lambda>x y. fst x < fst y) ?kept"
    by (rule sorted_wrt_filter)
  have "sorted_wrt (\<lambda>x y. apart (snd x) (snd y)) ?kept"
  proof (rule sorted_wrt_mono_rel [OF _ idx])
    fix x y
    assume x: "x \<in> set ?kept" and y: "y \<in> set ?kept" and lt: "fst x < fst y"
    show "apart (snd x) (snd y)"
    proof (rule ccontr)
      assume "\<not> apart (snd x) (snd y)"
      with lt have "clash x y"
        by (simp add: apart_def clash_def)
      moreover from x y have "x \<in> set ?en" and "y \<in> set ?en"
        by simp_all
      ultimately have "dropped cands x \<or> dropped cands y"
        by (rule clash_drops_one [rotated 2])
      with x y show False
        by simp
    qed
  qed
  then show ?thesis
    by (simp add: deduplicate_def sorted_wrt_map)
qed

lemma apart_sym: "apart A B \<Longrightarrow> apart B A"
  by (auto simp: apart_def overlap_sym)

lemma apart_body:
  "ring_body a = ring_body a' \<Longrightarrow> ring_body b = ring_body b' \<Longrightarrow> apart a b = apart a' b'"
  by (simp add: apart_def overlap_def shared_count_def member_count_def ring_body_def)


lemma emit_rings_apart: "sorted_wrt apart (emit_rings rs) = sorted_wrt apart rs"
proof -
  have "sorted_wrt apart (emit_rings rs) = sorted_wrt apart (sort_key ring_sort_key rs)"
    using apart_body emit_rings_body_sorted by (rule sorted_wrt_body)
  also have "\<dots> = sorted_wrt apart rs"
    using apart_sym by (rule sorted_wrt_sort_key_sym)
  finally show ?thesis .
qed

lemma overlap_card:
  "overlap A B =
     real (card (set (member_accounts A) \<inter> set (member_accounts B))) /
     real (min (card (set (member_accounts A))) (card (set (member_accounts B))))"
  by (simp add: overlap_def shared_count_card member_count_card)

lemma enumerate_nth: "enumerate 0 xs = map (\<lambda>j. (j, xs ! j)) [0..<length xs]"
  using enumerate_map_upt [of 0 "nth xs" "length xs"] by (simp add: map_nth)

lemma deduplicate_positions:
  "deduplicate cands =
     map (nth cands) (filter (\<lambda>j. \<not> dropped cands (j, cands ! j)) [0..<length cands])"
  by (simp add: deduplicate_def enumerate_nth filter_map comp_def)

lemma fraud_rings_apart: "sorted_wrt apart (fraud_rings cands)"
  by (simp add: fraud_rings_def emit_rings_apart deduplicate_apart)

text \<open>
  Claim C3. Any two rings at different places of the emitted report that have the same
  \<open>pattern_type\<close> overlap by at most 0.85, where overlap is \<open>|A \<inter> B| / min(|A|, |B|)\<close>.
  The survivors are the candidates that are not dropped, in construction order; whenever
  two candidates of the same pattern type overlap above 0.85, the lower of the two (by
  score, then by member count, then the later one) is dropped.
\<close>

theorem dedup_overlap_bound:
  "(p < q \<and> q < length (fraud_rings cands) \<and>
    pattern_type (fraud_rings cands ! p) = pattern_type (fraud_rings cands ! q) \<longrightarrow>
      real (card (set (member_accounts (fraud_rings cands ! p)) \<inter>
                  set (member_accounts (fraud_rings cands ! q)))) /
      real (min (card (set (member_accounts (fraud_rings cands ! p))))
                (card (set (member_accounts (fraud_rings cands ! q))))) \<le> 0.85) \<and>
   fraud_rings cands = emit_rings (deduplicate cands) \<and>
   deduplicate cands =
     map (nth cands) (filter (\<lambda>j. \<not> dropped cands (j, cands ! j)) [0..<length cands]) \<and>
   (i < length cands \<and> j < length cands \<and> i \<noteq> j \<and>
    pattern_type (cands ! i) = pattern_type (cands ! j) \<and>
    overlap (cands ! i) (cands ! j) > 0.85 \<and>
    lower_ring (j, cands ! j) (i, cands ! i) \<longrightarrow>
      dropped cands (j, cands ! j))"
proof -
  have bound: "overlap (fraud_rings cands ! p) (fraud_rings cands ! q) \<le> 0.85"
    if "p < q" and "q < length (fraud_rings cands)"
      and "pattern_type (fraud_rings cands ! p) = pattern_type (fraud_rings cands ! q)"
  proof -
    from fraud_rings_apart that(1,2)
    have "apart (fraud_rings cands ! p) (fraud_rings cands ! q)"
      by (rule sorted_wrt_nth_less)
    with that(3) show ?thesis
      by (simp add: apart_def)
  qed
  have drop: "dropped cands (j, cands ! j)"
    if "i < length cands" and "j < length cands" and "i \<noteq> j"
      and "pattern_type (cands ! i) = pattern_type (cands ! j)"
      and "overlap (cands ! i) (cands ! j) > 0.85"
      and "lower_ring (j, cands ! j) (i, cands ! i)"
  proof -
    from that(1) have "(i, cands ! i) \<in> set (enumerate 0 cands)"
      by (simp add: in_set_enumerate_eq)
    moreover from that(3,4,5) have "clash (i, cands ! i) (j, cands ! j)"
      by (simp add: clash_def)
    ultimately show ?thesis
      using that(6) unfolding dropped_def list_ex_iff by blast
  qed
  from bound drop deduplicate_positions [of cands] show ?thesis
    unfolding overlap_card [symmetric] fraud_rings_def by blast
qed

text \<open>
  Four candidates: two cycles over the same four accounts (overlap 1), a cycle sharing
  three of four members with them (overlap 0.75), and a smurfing hub.
\<close>

definition sample_candidates :: "fraud_ring list" where
  "sample_candidates =
     [\<lparr> ring_id = [], pattern_type = ''cycle'', member_accounts = [''A'', ''B'', ''C'', ''D''],
        risk_score = 90 \<rparr>,
      \<lparr> ring_id = [], pattern_type = ''cycle'', member_accounts = [''A'', ''C'', ''B'', ''D''],
        risk_score = 95 \<rparr>,
      \<lparr> ring_id = [], pattern_type = ''cycle'', member_accounts = [''A'', ''B'', ''C'', ''E''],
        risk_score = 85 \<rparr>,
      \<lparr> ring_id = [], pattern_type = ''smurfing'', member_accounts = [''A''], risk_score = 70 \<rparr>]"

theorem dedup_overlap_bound_witness:
  "overlap (sample_candidates ! 1) (sample_candidates ! 0) = 1 \<and>
   lower_ring (0, sample_candidates ! 0) (1, sample_candidates ! 1) \<and>
   dropped sample_candidates (0, sample_candidates ! 0) \<and>
   map ring_body (fraud_rings sample_candidates) =
     [(''cycle'', [''A'', ''C'', ''B'', ''D''], 95), (''cycle'', [''A'', ''B'', ''C'', ''E''], 85),
      (''smurfing'', [''A''], 70)] \<and>
   pattern_type (fraud_rings sample_candidates ! 0) = pattern_type (fraud_rings sample_candidates ! 1) \<and>
   real (card (set (member_accounts (fraud_rings sample_candidates ! 0)) \<inter>
               set (member_accounts (fraud_rings sample_candidates ! 1)))) /
   real (min (card (set (member_accounts (fraud_rings sample_candidates ! 0))))
             (card (set (member_accounts (fraud_rings sample_candidates ! 1))))) \<le> 0.85"
proof -
  have ov: "overlap (sample_candidates ! 1) (sample_candidates ! 0) = 1"
    by (simp add: sample_candidates_def overlap_def shared_count_def member_count_def)
  have lo: "lower_ring (0, sample_candidates ! 0) (1, sample_candidates ! 1)"
    by (simp add: sample_candidates_def lower_ring_def)
  have ty: "pattern_type (sample_candidates ! 1) = pattern_type (sample_candidates ! 0)"
    by (simp add: sample_candidates_def)
  have len: "length sample_candidates = 4"
    by (simp add: sample_candidates_def)
  note inst = dedup_overlap_bound [of 0 1 sample_candidates 1 0]
  from inst ov lo ty len have d0: "dropped sample_candidates (0, sample_candidates ! 0)"
    by simp
  have d: "\<not> dropped sample_candidates (1, sample_candidates ! 1)"
    "\<not> dropped sample_candidates (2, sample_candidates ! 2)"
    "\<not> dropped sample_candidates (3, sample_candidates ! 3)"
    by (simp_all add: sample_candidates_def dropped_def clash_def lower_ring_def overlap_def
        shared_count_def member_count_def)
  have "[0..<length sample_candidates] = [0, 1, 2, 3]"
    unfolding len by (simp add: upt_rec)
  with inst d0 d have "deduplicate sample_candidates =
      [sample_candidates ! 1, sample_candidates ! 2, sample_candidates ! 3]"
    by simp
  then have "map ring_body (fraud_rings sample_candidates) =
      map ring_body (sort_key ring_sort_key
        [sample_candidates ! 1, sample_candidates ! 2, sample_candidates ! 3])"
    by (simp add: fraud_rings_def emit_rings_body_sorted)
  also have "\<dots> = map ring_body [sample_candidates ! 1, sample_candidates ! 2, sample_candidates ! 3]"
    by (simp add: sample_candidates_def ring_sort_key_def less_eq_prod_def)
  finally have bodies: "map ring_body (fraud_rings sample_candidates) =
     [(''cycle'', [''A'', ''C'', ''B'', ''D''], 95), (''cycle'', [''A'', ''B'', ''C'', ''E''], 85),
      (''smurfing'', [''A''], 70)]"
    by (simp add: sample_candidates_def ring_body_def)
  then have three: "length (fraud_rings sample_candidates) = 3"
    using length_map [of ring_body "fraud_rings sample_candidates"] by simp
  have b0: "ring_body (fraud_rings sample_candidates ! 0) = (''cycle'', [''A'', ''C'', ''B'', ''D''], 95)"
    using nth_map [of 0 "fraud_rings sample_candidates" ring_body] three bodies by simp
  have b1: "ring_body (fraud_rings sample_candidates ! 1) = (''cycle'', [''A'', ''B'', ''C'', ''E''], 85)"
    using nth_map [of 1 "fraud_rings sample_candidates" ring_body] three bodies by simp
  from b0 b1 have same: "pattern_type (fraud_rings sample_candidates ! 0) =
      pattern_type (fraud_rings sample_candidates ! 1)"
    by (simp add: ring_body_def)
  with three have hyp: "(0::nat) < 1 \<and> 1 < length (fraud_rings sample_candidates) \<and>
      pattern_type (fraud_rings sample_candidates ! 0) = pattern_type (fraud_rings sample_candidates ! 1)"
    by simp
  from inst have "(0::nat) < 1 \<and> 1 < length (fraud_rings sample_candidates) \<and>
      pattern_type (fraud_rings sample_candidates ! 0) = pattern_type (fraud_rings sample_candidates ! 1) \<longrightarrow>
      real (card (set (member_accounts (fraud_rings sample_candidates ! 0)) \<inter>
               set (member_accounts (fraud_rings sample_candidates ! 1)))) /
      real (min (card (set (member_accounts (fraud_rings sample_candidates ! 0))))
             (card (set (member_accounts (fraud_rings sample_candidates ! 1))))) \<le> 0.85"
    by (rule conjunct1)
  from this hyp have "real (card (set (member_accounts (fraud_rings sample_candidates ! 0)) \<inter>
               set (member_accounts (fraud_rings sample_candidates ! 1)))) /
      real (min (card (set (member_accounts (fraud_rings sample_candidates ! 0))))
             (card (set (member_accounts (fraud_rings sample_candidates ! 1))))) \<le> 0.85"
    by (rule mp)
  with ov lo d0 bodies same show ?thesis
    by blast
qed

section \<open>DownloadBar: the exported file\<close>

subsection \<open>JSON values and text\<close>

text \<open>
  A JavaScript string is a sequence of 16-bit code units, and so is the text that
  \<open>JSON.stringify\<close> returns. The report is a JSON value: null, a boolean, a finite
  number, a string, an array, or an object, whose own properties are listed in the order
  in which the object enumerates them. Numbers are of a type \<open>'n\<close>; how a number is
  written and read (\<open>Number::toString\<close> and the numeric reading of a JSON number) are
  parameters \<open>num_str\<close> and \<open>num_of\<close>.
\<close>

type_synonym code_unit = "16 word"

type_synonym js_string = "code_unit list"

datatype 'n json =
    JNull
  | JBool bool
  | JNum 'n
  | JStr js_string
  | JArr "'n json list"
  | JObj "(js_string \<times> 'n json) list"

definition lit :: "string \<Rightarrow> js_string" where
  "lit s = map of_char s"

subsection \<open>JSON.stringify(value, null, 2)\<close>

text \<open>
  \<open>QuoteJSONString\<close>: the quotation mark and the reverse solidus are escaped with a
  reverse solidus; backspace, tab, line feed, form feed and carriage return have the
  short escapes \<open>\b \t \n \f \r\<close>; any other code unit below \<open>0x20\<close> and any surrogate
  that is not part of a pair is written \<open>\uXXXX\<close> with lower-case hexadecimal digits;
  every other code unit, and a leading surrogate followed by a trailing one, stands for
  itself.
\<close>

definition hex_digit :: "nat \<Rightarrow> code_unit" where
  "hex_digit d = of_char (''0123456789abcdef'' ! d)"

definition UnicodeEscape :: "code_unit \<Rightarrow> js_string" where
  "UnicodeEscape c =
     (let n = unat c in
      [0x5C, 0x75, hex_digit (n div 4096), hex_digit (n div 256 mod 16),
       hex_digit (n div 16 mod 16), hex_digit (n mod 16)])"

definition is_leading_surrogate :: "code_unit \<Rightarrow> bool" where
  "is_leading_surrogate c = (0xD800 \<le> c \<and> c \<le> 0xDBFF)"

definition is_trailing_surrogate :: "code_unit \<Rightarrow> bool" where
  "is_trailing_surrogate c = (0xDC00 \<le> c \<and> c \<le> 0xDFFF)"

definition quote_unit :: "code_unit \<Rightarrow> js_string" where
  "quote_unit c =
     (if c = 0x08 then [0x5C, 0x62]
      else if c = 0x09 then [0x5C, 0x74]
      else if c = 0x0A then [0x5C, 0x6E]
      else if c = 0x0C then [0x5C, 0x66]
      else if c = 0x0D then [0x5C, 0x72]
      else if c = 0x22 then [0x5C, 0x22]
      else if c = 0x5C then [0x5C, 0x5C]
      else if c < 0x20 \<or> is_leading_surrogate c \<or> is_trailing_surrogate c then UnicodeEscape c
      else [c])"

fun quote_units :: "js_string \<Rightarrow> js_string" where
  "quote_units [] = []"
| "quote_units [c] = quote_unit c"
| "quote_units (c # d # s) =
     (if is_leading_surrogate c \<and> is_trailing_surrogate d then c # d # quote_units s
      else quote_unit c @ quote_units (d # s))"

definition QuoteJSONString :: "js_string \<Rightarrow> js_string" where
  "QuoteJSONString s = 0x22 # quote_units s @ [0x22]"

text \<open>
  \<open>SerializeJSONProperty\<close>, \<open>SerializeJSONArray\<close> and \<open>SerializeJSONObject\<close> with the gap
  of two spaces that the third argument \<open>2\<close> sets. \<open>indent\<close> counts the spaces of the
  current indentation. An empty array is \<open>[]\<close> and an empty object \<open>{}\<close>; otherwise each
  element or member is on a line of its own, indented by two more spaces, separated by
  a comma, and the closing bracket is on a line at the current indentation. A member is
  the quoted key, a colon, a space and the value.
\<close>

fun join :: "js_string \<Rightarrow> js_string list \<Rightarrow> js_string" where
  "join sep [] = []"
| "join sep [x] = x"
| "join sep (x # y # ys) = x @ sep @ join sep (y # ys)"

definition spaces :: "nat \<Rightarrow> js_string" where
  "spaces n = replicate n 0x20"

definition separator :: "nat \<Rightarrow> js_string" where
  "separator indent = 0x2C # 0x0A # spaces indent"

definition wrap :: "code_unit \<Rightarrow> code_unit \<Rightarrow> nat \<Rightarrow> js_string list \<Rightarrow> js_string" where
  "wrap opening closing stepback partial =
     (if partial = [] then [opening, closing]
      else opening # 0x0A # spaces (stepback + 2) @ join (separator (stepback + 2)) partial
           @ 0x0A # spaces stepback @ [closing])"

fun SerializeJSONProperty :: "('n \<Rightarrow> js_string) \<Rightarrow> nat \<Rightarrow> 'n json \<Rightarrow> js_string" where
  "SerializeJSONProperty num_str indent JNull = lit ''null''"
| "SerializeJSONProperty num_str indent (JBool b) = (if b then lit ''true'' else lit ''false'')"
| "SerializeJSONProperty num_str indent (JNum n) = num_str n"
| "SerializeJSONProperty num_str indent (JStr s) = QuoteJSONString s"
| "SerializeJSONProperty num_str indent (JArr vs) =
     wrap 0x5B 0x5D indent (map (SerializeJSONProperty num_str (indent + 2)) vs)"
| "SerializeJSONProperty num_str indent (JObj kvs) =
     wrap 0x7B 0x7D indent
       (map (\<lambda>(k, v). QuoteJSONString k @ [0x3A, 0x20] @ SerializeJSONProperty num_str (indent + 2) v) kvs)"

definition JSON_stringify :: "('n \<Rightarrow> js_string) \<Rightarrow> 'n json \<Rightarrow> js_string" where
  "JSON_stringify num_str v = SerializeJSONProperty num_str 0 v"
subsection \<open>JSON.parse\<close>

text \<open>
  The JSON grammar: white space is space, tab, line feed and carriage return. In a
  string, a code unit below \<open>0x20\<close> is an error; a reverse solidus starts one of the
  escapes \<open>\" \\ \/ \b \f \n \r \t\<close> or \<open>\uXXXX\<close> with four hexadecimal digits of either
  case. \<open>parse_chars\<close> reads a string after its opening quotation mark and returns it
  with the text after the closing one.
\<close>

definition is_ws :: "code_unit \<Rightarrow> bool" where
  "is_ws c = (c = 0x20 \<or> c = 0x09 \<or> c = 0x0A \<or> c = 0x0D)"

definition skip_ws :: "js_string \<Rightarrow> js_string" where
  "skip_ws t = dropWhile is_ws t"

definition hex_value :: "code_unit \<Rightarrow> nat option" where
  "hex_value c =
     (if 0x30 \<le> c \<and> c \<le> 0x39 then Some (unat c - 48)
      else if 0x61 \<le> c \<and> c \<le> 0x66 then Some (unat c - 87)
      else if 0x41 \<le> c \<and> c \<le> 0x46 then Some (unat c - 55)
      else None)"

definition unescape :: "code_unit \<Rightarrow> code_unit option" where
  "unescape e =
     (if e = 0x22 then Some 0x22
      else if e = 0x5C then Some 0x5C
      else if e = 0x2F then Some 0x2F
      else if e = 0x62 then Some 0x08
      else if e = 0x66 then Some 0x0C
      else if e = 0x6E then Some 0x0A
      else if e = 0x72 then Some 0x0D
      else if e = 0x74 then Some 0x09
      else None)"

definition hex4 :: "code_unit \<Rightarrow> code_unit \<Rightarrow> code_unit \<Rightarrow> code_unit \<Rightarrow> code_unit option" where
  "hex4 a b c d =
     (case (hex_value a, hex_value b, hex_value c, hex_value d) of
        (Some x3, Some x2, Some x1, Some x0) \<Rightarrow> Some (of_nat (((x3 * 16 + x2) * 16 + x1) * 16 + x0))
      | _ \<Rightarrow> None)"

fun parse_chars :: "js_string \<Rightarrow> (js_string \<times> js_string) option" where
  "parse_chars [] = None"
| "parse_chars (c # t) =
     (if c = 0x22 then Some ([], t)
      else if c = 0x5C then
        (case t of
           [] \<Rightarrow> None
         | e # t' \<Rightarrow>
             if e = 0x75 then
               (case t' of
                  a # b # c' # d # t'' \<Rightarrow>
                    (case hex4 a b c' d of
                       None \<Rightarrow> None
                     | Some u \<Rightarrow>
                         (case parse_chars t'' of None \<Rightarrow> None | Some (s, r) \<Rightarrow> Some (u # s, r)))
                | _ \<Rightarrow> None)
             else
               (case unescape e of
                  None \<Rightarrow> None
                | Some u \<Rightarrow>
                    (case parse_chars t' of None \<Rightarrow> None | Some (s, r) \<Rightarrow> Some (u # s, r))))
      else if c < 0x20 then None
      else (case parse_chars t of None \<Rightarrow> None | Some (s, r) \<Rightarrow> Some (c # s, r)))"

text \<open>
  A number token is the longest run of the characters a JSON number is written with
  (digits, sign, point, exponent mark); \<open>num_of\<close> reads it, and fails on a run that is
  not a JSON number.
\<close>

definition is_num_char :: "code_unit \<Rightarrow> bool" where
  "is_num_char c =
     ((0x30 \<le> c \<and> c \<le> 0x39) \<or> c = 0x2D \<or> c = 0x2B \<or> c = 0x2E \<or> c = 0x65 \<or> c = 0x45)"

definition parse_number :: "(js_string \<Rightarrow> 'n option) \<Rightarrow> js_string \<Rightarrow> ('n json \<times> js_string) option" where
  "parse_number num_of t =
     (case num_of (takeWhile is_num_char t) of
        None \<Rightarrow> None
      | Some n \<Rightarrow> Some (JNum n, dropWhile is_num_char t))"

text \<open>
  The own properties of the object a list of members creates: a member whose key is
  already present replaces the value in place; the keys that are array indices come
  first, in ascending numeric order, then the others in order of creation.
\<close>

fun set_property :: "(js_string \<times> 'v) list \<Rightarrow> js_string \<Rightarrow> 'v \<Rightarrow> (js_string \<times> 'v) list" where
  "set_property [] k v = [(k, v)]"
| "set_property ((k', v') # kvs) k v =
     (if k' = k then (k, v) # kvs else (k', v') # set_property kvs k v)"

definition is_digit :: "code_unit \<Rightarrow> bool" where
  "is_digit c = (0x30 \<le> c \<and> c \<le> 0x39)"

definition index_value :: "js_string \<Rightarrow> nat" where
  "index_value k = foldl (\<lambda>v c. 10 * v + (unat c - 48)) 0 k"

definition array_index :: "js_string \<Rightarrow> nat option" where
  "array_index k =
     (if k \<noteq> [] \<and> list_all is_digit k \<and> (k = [0x30] \<or> hd k \<noteq> 0x30) \<and>
         index_value k < 4294967295
      then Some (index_value k) else None)"

definition order_keys :: "(js_string \<times> 'v) list \<Rightarrow> (js_string \<times> 'v) list" where
  "order_keys kvs =
     sort_key (\<lambda>(k, v). case array_index k of None \<Rightarrow> 0 | Some i \<Rightarrow> i)
       (filter (\<lambda>(k, v). array_index k \<noteq> None) kvs)
     @ filter (\<lambda>(k, v). array_index k = None) kvs"

definition own_properties :: "(js_string \<times> 'v) list \<Rightarrow> (js_string \<times> 'v) list" where
  "own_properties members = order_keys (fold (\<lambda>(k, v) acc. set_property acc k v) members [])"

text \<open>
  The parser proper, by recursive descent. Each call into a value, into the rest of an
  array or into the rest of an object takes one unit of fuel, and \<open>JSON_parse\<close> starts
  with more fuel than the text has code units; \<open>need_le_length\<close> below shows that this
  is enough for every text \<open>JSON.stringify\<close> writes. \<open>None\<close> is a syntax error.
\<close>

fun parse_value :: "(js_string \<Rightarrow> 'n option) \<Rightarrow> nat \<Rightarrow> js_string \<Rightarrow> ('n json \<times> js_string) option"
  and parse_elements :: "(js_string \<Rightarrow> 'n option) \<Rightarrow> nat \<Rightarrow> js_string \<Rightarrow> ('n json list \<times> js_string) option"
  and parse_members ::
    "(js_string \<Rightarrow> 'n option) \<Rightarrow> nat \<Rightarrow> js_string \<Rightarrow> ((js_string \<times> 'n json) list \<times> js_string) option"
  where
  "parse_value num_of 0 t = None"
| "parse_value num_of (Suc f) t =
     (case skip_ws t of
        [] \<Rightarrow> None
      | c # r \<Rightarrow>
          if c = 0x22 then
            (case parse_chars r of None \<Rightarrow> None | Some (s, r') \<Rightarrow> Some (JStr s, r'))
          else if c = 0x5B then
            (case skip_ws r of
               [] \<Rightarrow> None
             | d # r' \<Rightarrow>
                 if d = 0x5D then Some (JArr [], r')
                 else (case parse_elements num_of f r of
                         None \<Rightarrow> None
                       | Some (vs, r'') \<Rightarrow> Some (JArr vs, r'')))
          else if c = 0x7B then
            (case skip_ws r of
               [] \<Rightarrow> None
             | d # r' \<Rightarrow>
                 if d = 0x7D then Some (JObj [], r')
                 else (case parse_members num_of f r of
                         None \<Rightarrow> None
                       | Some (kvs, r'') \<Rightarrow> Some (JObj (own_properties kvs), r'')))
          else if prefix (lit ''null'') (c # r) then Some (JNull, drop 4 (c # r))
          else if prefix (lit ''true'') (c # r) then Some (JBool True, drop 4 (c # r))
          else if prefix (lit ''false'') (c # r) then Some (JBool False, drop 5 (c # r))
          else parse_number num_of (c # r))"
| "parse_elements num_of 0 t = None"
| "parse_elements num_of (Suc f) t =
     (case parse_value num_of f t of
        None \<Rightarrow> None
      | Some (v, r) \<Rightarrow>
          (case skip_ws r of
             [] \<Rightarrow> None
           | c # r' \<Rightarrow>
               if c = 0x2C then
                 (case parse_elements num_of f r' of
                    None \<Rightarrow> None
                  | Some (vs, r'') \<Rightarrow> Some (v # vs, r''))
               else if c = 0x5D then Some ([v], r')
               else None))"
| "parse_members num_of 0 t = None"
| "parse_members num_of (Suc f) t =
     (case skip_ws t of
        [] \<Rightarrow> None
      | c # r \<Rightarrow>
          if c = 0x22 then
            (case parse_chars r of
               None \<Rightarrow> None
             | Some (k, r1) \<Rightarrow>
                 (case skip_ws r1 of
                    [] \<Rightarrow> None
                  | c1 # r2 \<Rightarrow>
                      if c1 = 0x3A then
                        (case parse_value num_of f r2 of
                           None \<Rightarrow> None
                         | Some (v, r3) \<Rightarrow>
                             (case skip_ws r3 of
                                [] \<Rightarrow> None
                              | c3 # r4 \<Rightarrow>
                                  if c3 = 0x2C then
                                    (case parse_members num_of f r4 of
                                       None \<Rightarrow> None
                                     | Some (kvs, r5) \<Rightarrow> Some ((k, v) # kvs, r5))
                                  else if c3 = 0x7D then Some ([(k, v)], r4)
                                  else None))
                      else None))
          else None)"

definition JSON_parse :: "(js_string \<Rightarrow> 'n option) \<Rightarrow> js_string \<Rightarrow> 'n json option" where
  "JSON_parse num_of t =
     (case parse_value num_of (Suc (length t)) t of
        None \<Rightarrow> None
      | Some (v, r) \<Rightarrow> if skip_ws r = [] then Some v else None)"
subsection \<open>downloadJSON\<close>

text \<open>
  \<^verbatim>\<open>
  const downloadJSON = () => {
    const blob = new Blob([JSON.stringify(result, null, 2)], { type: 'application/json' })
    const url = URL.createObjectURL(blob)
    const a = document.createElement('a')
    a.href = url
    a.download = 'finforge_fraud_report.json'
    a.click()
    URL.revokeObjectURL(url)
  }
  \<close>
  The effect of the click is the download of one file: its name, its type and its
  content, the text of the blob.
\<close>

record download =
  file_name :: string
  file_type :: string
  file_content :: js_string

definition downloadJSON :: "('n \<Rightarrow> js_string) \<Rightarrow> 'n json \<Rightarrow> download" where
  "downloadJSON num_str result =
     \<lparr> file_name = ''finforge_fraud_report.json'',
       file_type = ''application/json'',
       file_content = JSON_stringify num_str result \<rparr>"

text \<open>
  The values \<open>JSON.stringify\<close> and \<open>JSON.parse\<close> take to each other: in every object the
  keys are distinct and listed in the object's own order of enumeration.
\<close>

fun representable :: "'n json \<Rightarrow> bool" where
  "representable (JArr vs) = list_all representable vs"
| "representable (JObj kvs) =
     (distinct (map fst kvs) \<and> order_keys kvs = kvs \<and> list_all (\<lambda>kv. representable (snd kv)) kvs)"
| "representable v = True"

text \<open>The fuel that parsing the text of a value takes.\<close>

fun need_list :: "nat list \<Rightarrow> nat" where
  "need_list [] = 0"
| "need_list (n # ns) = Suc (max n (need_list ns))"

fun need :: "'n json \<Rightarrow> nat" where
  "need (JArr vs) = Suc (need_list (map need vs))"
| "need (JObj kvs) = Suc (need_list (map (\<lambda>kv. need (snd kv)) kvs))"
| "need v = Suc 0"

text \<open>
  A format of numbers: every number is written as a non-empty run of number characters,
  and reading what was written gives the number back. For the finite numbers of
  JavaScript this is what \<open>Number::toString\<close> and the reading of a numeric literal
  guarantee.
\<close>

definition number_format :: "('n \<Rightarrow> js_string) \<Rightarrow> (js_string \<Rightarrow> 'n option) \<Rightarrow> bool" where
  "number_format num_str num_of =
     (\<forall>n. num_str n \<noteq> [] \<and> list_all is_num_char (num_str n) \<and> num_of (num_str n) = Some n)"

text \<open>
  A text after a number does not continue the number; the text of a value starts with
  a code unit that is neither white space nor a closing bracket.
\<close>

definition ends_number :: "js_string \<Rightarrow> bool" where
  "ends_number rest = (case rest of [] \<Rightarrow> True | c # r \<Rightarrow> \<not> is_num_char c)"

definition starts_value :: "js_string \<Rightarrow> bool" where
  "starts_value t = (case t of [] \<Rightarrow> False | c # r \<Rightarrow> \<not> is_ws c \<and> c \<noteq> 0x5D \<and> c \<noteq> 0x7D)"

lemma below_16_cases:
  assumes "d < (16::nat)"
  shows "d = 0 \<or> d = 1 \<or> d = 2 \<or> d = 3 \<or> d = 4 \<or> d = 5 \<or> d = 6 \<or> d = 7 \<or>
         d = 8 \<or> d = 9 \<or> d = 10 \<or> d = 11 \<or> d = 12 \<or> d = 13 \<or> d = 14 \<or> d = 15"
  using assms by arith

lemma hex_value_hex_digit: "d < 16 \<Longrightarrow> hex_value (hex_digit d) = Some d"
  using below_16_cases [of d] by (auto simp: hex_digit_def hex_value_def)

lemma hex_places:
  fixes n :: nat
  assumes "n < 65536"
  shows "((n div 4096 * 16 + n div 256 mod 16) * 16 + n div 16 mod 16) * 16 + n mod 16 = n"
proof -
  have a: "n div 16 = 16 * (n div 256) + n div 16 mod 16"
    using div_mult_mod_eq [of "n div 16" 16] by (simp add: div_mult2_eq [symmetric] mult.commute)
  have b: "n div 256 = 16 * (n div 4096) + n div 256 mod 16"
    using div_mult_mod_eq [of "n div 256" 16] by (simp add: div_mult2_eq [symmetric] mult.commute)
  have c: "n = 16 * (n div 16) + n mod 16"
    by simp
  have "((n div 4096 * 16 + n div 256 mod 16) * 16 + n div 16 mod 16) * 16 + n mod 16 =
      4096 * (n div 4096) + 256 * (n div 256 mod 16) + 16 * (n div 16 mod 16) + n mod 16"
    by (simp add: algebra_simps)
  with a b c show ?thesis
    by linarith
qed

lemma hex4_UnicodeEscape:
  "UnicodeEscape c = [0x5C, 0x75, a, b, c', d] \<Longrightarrow> hex4 a b c' d = Some c"
proof -
  assume "UnicodeEscape c = [0x5C, 0x75, a, b, c', d]"
  then have abcd: "a = hex_digit (unat c div 4096)" "b = hex_digit (unat c div 256 mod 16)"
    "c' = hex_digit (unat c div 16 mod 16)" "d = hex_digit (unat c mod 16)"
    by (simp_all add: UnicodeEscape_def Let_def)
  have lt: "unat c < 65536"
    using unsigned_less [of c] by simp
  then have top: "unat c div 4096 < 16"
    by simp
  have general: "hex4 p q r s = Some (of_nat (((x3 * 16 + x2) * 16 + x1) * 16 + x0))"
    if "hex_value p = Some x3" "hex_value q = Some x2" "hex_value r = Some x1"
      "hex_value s = Some x0" for p q r s x3 x2 x1 x0
    using that by (simp add: hex4_def)
  have "hex4 a b c' d =
      Some (of_nat (((unat c div 4096 * 16 + unat c div 256 mod 16) * 16 + unat c div 16 mod 16) * 16
        + unat c mod 16))"
    unfolding abcd by (rule general) (simp_all add: hex_value_hex_digit top)
  also have "\<dots> = Some (of_nat (unat c))"
    by (simp only: hex_places [OF lt])
  finally show ?thesis
    by simp
qed

lemma surrogate_plain:
  assumes "is_leading_surrogate c \<or> is_trailing_surrogate c"
  shows "c \<noteq> 0x22 \<and> c \<noteq> 0x5C \<and> \<not> c < 0x20"
  using assms
  by (auto simp: is_leading_surrogate_def is_trailing_surrogate_def word_le_nat_alt word_less_nat_alt)

lemma parse_chars_plain:
  "c \<noteq> 0x22 \<Longrightarrow> c \<noteq> 0x5C \<Longrightarrow> \<not> c < 0x20 \<Longrightarrow>
   parse_chars (c # t) = (case parse_chars t of None \<Rightarrow> None | Some (s, r) \<Rightarrow> Some (c # s, r))"
  by simp

lemma parse_chars_UnicodeEscape:
  "parse_chars (UnicodeEscape c @ t) =
     (case parse_chars t of None \<Rightarrow> None | Some (s, r) \<Rightarrow> Some (c # s, r))"
proof -
  obtain a b c' d where esc: "UnicodeEscape c = [0x5C, 0x75, a, b, c', d]"
    by (simp add: UnicodeEscape_def Let_def)
  then have "hex4 a b c' d = Some c"
    by (rule hex4_UnicodeEscape)
  then show ?thesis
    unfolding esc by simp
qed

lemma parse_chars_quote_unit:
  "parse_chars (quote_unit c @ t) =
     (case parse_chars t of None \<Rightarrow> None | Some (s, r) \<Rightarrow> Some (c # s, r))"
proof -
  let ?k = "\<lambda>u. case parse_chars t of None \<Rightarrow> None | Some (s, r) \<Rightarrow> Some (u # s, r)"
  have short: "parse_chars (0x5C # e # t) = ?k u" if "unescape e = Some u" "e \<noteq> 0x75" for e u
    using that by simp
  consider (bs) "c = 0x08" | (ht) "c = 0x09" | (lf) "c = 0x0A" | (ff) "c = 0x0C" | (cr) "c = 0x0D"
    | (qu) "c = 0x22" | (rs) "c = 0x5C"
    | (esc) "c \<noteq> 0x08" "c \<noteq> 0x09" "c \<noteq> 0x0A" "c \<noteq> 0x0C" "c \<noteq> 0x0D" "c \<noteq> 0x22" "c \<noteq> 0x5C"
        "c < 0x20 \<or> is_leading_surrogate c \<or> is_trailing_surrogate c"
    | (plain) "c \<noteq> 0x08" "c \<noteq> 0x09" "c \<noteq> 0x0A" "c \<noteq> 0x0C" "c \<noteq> 0x0D" "c \<noteq> 0x22" "c \<noteq> 0x5C"
        "\<not> (c < 0x20 \<or> is_leading_surrogate c \<or> is_trailing_surrogate c)"
    by blast
  then show ?thesis
  proof cases
    case bs
    show ?thesis
      unfolding bs using short [of "0x62" "0x08"] by (simp add: quote_unit_def unescape_def del: parse_chars.simps)
  next
    case ht
    show ?thesis
      unfolding ht using short [of "0x74" "0x09"] by (simp add: quote_unit_def unescape_def del: parse_chars.simps)
  next
    case lf
    show ?thesis
      unfolding lf using short [of "0x6E" "0x0A"] by (simp add: quote_unit_def unescape_def del: parse_chars.simps)
  next
    case ff
    show ?thesis
      unfolding ff using short [of "0x66" "0x0C"] by (simp add: quote_unit_def unescape_def del: parse_chars.simps)
  next
    case cr
    show ?thesis
      unfolding cr using short [of "0x72" "0x0D"] by (simp add: quote_unit_def unescape_def del: parse_chars.simps)
  next
    case qu
    show ?thesis
      unfolding qu using short [of "0x22" "0x22"] by (simp add: quote_unit_def unescape_def del: parse_chars.simps)
  next
    case rs
    show ?thesis
      unfolding rs using short [of "0x5C" "0x5C"] by (simp add: quote_unit_def unescape_def del: parse_chars.simps)
  next
    case esc
    then have "quote_unit c = UnicodeEscape c"
      by (simp add: quote_unit_def)
    then show ?thesis
      by (simp only: parse_chars_UnicodeEscape)
  next
    case plain
    then have "quote_unit c = [c]"
      by (simp add: quote_unit_def)
    with plain show ?thesis
      by (simp add: parse_chars_plain del: parse_chars.simps)
  qed
qed

lemma parse_chars_quote_units: "parse_chars (quote_units s @ 0x22 # rest) = Some (s, rest)"
proof (induction s rule: quote_units.induct)
  case 1
  show ?case by simp
next
  case (2 c)
  show ?case
    using parse_chars_quote_unit [of c "0x22 # rest"] by simp
next
  case (3 c d s)
  show ?case
  proof (cases "is_leading_surrogate c \<and> is_trailing_surrogate d")
    case True
    with "3.IH"(1) have ih: "parse_chars (quote_units s @ 0x22 # rest) = Some (s, rest)"
      by simp
    from True have c: "c \<noteq> 0x22 \<and> c \<noteq> 0x5C \<and> \<not> c < 0x20"
      and d: "d \<noteq> 0x22 \<and> d \<noteq> 0x5C \<and> \<not> d < 0x20"
      by (simp_all add: surrogate_plain)
    from True have "quote_units (c # d # s) = c # d # quote_units s"
      by simp
    then show ?thesis
      using c d ih by (simp add: parse_chars_plain del: parse_chars.simps)
  next
    case False
    with "3.IH"(2) have ih: "parse_chars (quote_units (d # s) @ 0x22 # rest) = Some (d # s, rest)"
      by simp
    have "quote_units (c # d # s) = quote_unit c @ quote_units (d # s)"
      by (simp only: quote_units.simps(3) if_not_P [OF False])
    then show ?thesis
      using parse_chars_quote_unit [of c "quote_units (d # s) @ 0x22 # rest"] ih by simp
  qed
qed

lemma parse_chars_QuoteJSONString:
  "QuoteJSONString s @ rest = 0x22 # t \<Longrightarrow> parse_chars t = Some (s, rest)"
  using parse_chars_quote_units [of s rest] by (simp add: QuoteJSONString_def)

lemma is_ws_simps [simp]: "is_ws 0x20" "is_ws 0x0A"
  by (simp_all add: is_ws_def)

lemma skip_ws_ws: "list_all is_ws ws \<Longrightarrow> skip_ws (ws @ t) = skip_ws t"
  by (induction ws) (simp_all add: skip_ws_def)

lemma skip_ws_start: "\<not> is_ws c \<Longrightarrow> skip_ws (c # t) = c # t"
  by (simp add: skip_ws_def)

lemma spaces_ws: "list_all is_ws (spaces n)"
  by (simp add: spaces_def list_all_iff)

lemma num_char_other:
  assumes "is_num_char c"
  shows "\<not> is_ws c" "c \<noteq> 0x5D" "c \<noteq> 0x7D" "c \<noteq> 0x22" "c \<noteq> 0x5B" "c \<noteq> 0x7B"
    "c \<noteq> 0x6E" "c \<noteq> 0x74" "c \<noteq> 0x66"
  using assms by (auto simp: is_num_char_def is_ws_def word_le_nat_alt)

lemma number_token:
  assumes "list_all is_num_char tok" and "ends_number rest"
  shows "takeWhile is_num_char (tok @ rest) = tok" and "dropWhile is_num_char (tok @ rest) = rest"
proof -
  from assms(2) have "takeWhile is_num_char rest = []" and "dropWhile is_num_char rest = rest"
    by (cases rest; simp add: ends_number_def)+
  with assms(1) show "takeWhile is_num_char (tok @ rest) = tok"
    and "dropWhile is_num_char (tok @ rest) = rest"
    by (simp_all add: list_all_iff takeWhile_append2 dropWhile_append2)
qed

lemma parse_number_token:
  assumes "list_all is_num_char tok" and "ends_number rest" and "num_of tok = Some n"
  shows "parse_number num_of (tok @ rest) = Some (JNum n, rest)"
  using assms by (simp add: parse_number_def number_token)

lemma starts_value_num: "is_num_char c \<Longrightarrow> starts_value (c # t)"
  by (simp add: starts_value_def num_char_other)

lemma lit_null: "lit ''null'' = [0x6E, 0x75, 0x6C, 0x6C]"
  and lit_true: "lit ''true'' = [0x74, 0x72, 0x75, 0x65]"
  and lit_false: "lit ''false'' = [0x66, 0x61, 0x6C, 0x73, 0x65]"
  by (simp_all add: lit_def)

lemma parse_value_null:
  "list_all is_ws ws \<Longrightarrow> parse_value num_of (Suc f) (ws @ lit ''null'' @ rest) = Some (JNull, rest)"
  by (simp add: skip_ws_ws lit_null skip_ws_start is_ws_def)

lemma parse_value_true:
  "list_all is_ws ws \<Longrightarrow> parse_value num_of (Suc f) (ws @ lit ''true'' @ rest) = Some (JBool True, rest)"
  by (simp add: skip_ws_ws lit_null lit_true skip_ws_start is_ws_def)

lemma parse_value_false:
  "list_all is_ws ws \<Longrightarrow> parse_value num_of (Suc f) (ws @ lit ''false'' @ rest) = Some (JBool False, rest)"
  by (simp add: skip_ws_ws lit_null lit_true lit_false skip_ws_start is_ws_def)

lemma parse_value_string:
  "list_all is_ws ws \<Longrightarrow>
   parse_value num_of (Suc f) (ws @ QuoteJSONString s @ rest) = Some (JStr s, rest)"
  by (simp add: skip_ws_ws QuoteJSONString_def skip_ws_start is_ws_def parse_chars_quote_units)

lemma parse_value_number:
  assumes "list_all is_ws ws" and "tok \<noteq> []" and "list_all is_num_char tok"
    and "ends_number rest" and "num_of tok = Some n"
  shows "parse_value num_of (Suc f) (ws @ tok @ rest) = Some (JNum n, rest)"
proof -
  from assms(2) obtain c r where tok: "tok = c # r"
    by (cases tok) auto
  with assms(3) have c: "is_num_char c"
    by simp
  have "parse_value num_of (Suc f) (ws @ tok @ rest) = parse_number num_of (tok @ rest)"
    using assms(1) num_char_other [OF c]
    by (simp add: skip_ws_ws tok skip_ws_start lit_null lit_true lit_false)
  with assms(3,4,5) show ?thesis
    by (simp add: parse_number_token)
qed

lemma parse_value_empty_array:
  "list_all is_ws ws \<Longrightarrow> parse_value num_of (Suc f) (ws @ [0x5B, 0x5D] @ rest) = Some (JArr [], rest)"
  by (simp add: skip_ws_ws skip_ws_start is_ws_def)

lemma parse_value_empty_object:
  "list_all is_ws ws \<Longrightarrow> parse_value num_of (Suc f) (ws @ [0x7B, 0x7D] @ rest) = Some (JObj [], rest)"
  by (simp add: skip_ws_ws skip_ws_start is_ws_def)

lemma skip_ws_starts_value: "starts_value t \<Longrightarrow> \<exists>c r. skip_ws t = c # r \<and> c \<noteq> 0x5D \<and> c \<noteq> 0x7D"
  by (cases t) (auto simp: starts_value_def skip_ws_start)

lemma parse_value_array:
  assumes "list_all is_ws ws" and "list_all is_ws ws'" and "starts_value t"
  shows "parse_value num_of (Suc f) (ws @ 0x5B # ws' @ t) =
     (case parse_elements num_of f (ws' @ t) of None \<Rightarrow> None | Some (vs, r) \<Rightarrow> Some (JArr vs, r))"
proof -
  from assms(3) obtain c r where "skip_ws t = c # r" and "c \<noteq> 0x5D"
    using skip_ws_starts_value by blast
  with assms(1,2) show ?thesis
    by (simp add: skip_ws_ws skip_ws_start is_ws_def)
qed

lemma parse_value_object:
  assumes "list_all is_ws ws" and "list_all is_ws ws'" and "starts_value t"
  shows "parse_value num_of (Suc f) (ws @ 0x7B # ws' @ t) =
     (case parse_members num_of f (ws' @ t) of None \<Rightarrow> None
      | Some (kvs, r) \<Rightarrow> Some (JObj (own_properties kvs), r))"
proof -
  from assms(3) obtain c r where "skip_ws t = c # r" and "c \<noteq> 0x7D"
    using skip_ws_starts_value by blast
  with assms(1,2) show ?thesis
    by (simp add: skip_ws_ws skip_ws_start is_ws_def)
qed

lemma set_property_new: "k \<notin> fst ` set acc \<Longrightarrow> set_property acc k v = acc @ [(k, v)]"
  by (induction acc) auto

lemma fold_set_property:
  "distinct (map fst kvs) \<Longrightarrow> fst ` set acc \<inter> fst ` set kvs = {} \<Longrightarrow>
   fold (\<lambda>(k, v) acc. set_property acc k v) kvs acc = acc @ kvs"
proof (induction kvs arbitrary: acc)
  case Nil
  show ?case by simp
next
  case (Cons kv kvs)
  obtain k v where kv: "kv = (k, v)"
    by (cases kv)
  from Cons.prems kv have new: "k \<notin> fst ` set acc"
    by auto
  from Cons.prems kv have "distinct (map fst kvs)"
    and "fst ` set (acc @ [(k, v)]) \<inter> fst ` set kvs = {}"
    by auto
  then have "fold (\<lambda>(k, v) acc. set_property acc k v) kvs (acc @ [(k, v)]) = (acc @ [(k, v)]) @ kvs"
    by (rule Cons.IH)
  with new show ?case
    by (simp add: kv set_property_new)
qed

lemma own_properties_id:
  "distinct (map fst kvs) \<Longrightarrow> order_keys kvs = kvs \<Longrightarrow> own_properties kvs = kvs"
  using fold_set_property [of kvs "[]"] by (simp add: own_properties_def)

lemma starts_value_join:
  "parts \<noteq> [] \<Longrightarrow> (\<And>t. starts_value (hd parts @ t)) \<Longrightarrow> starts_value (join sep parts @ t)"
  by (cases "(sep, parts)" rule: join.cases) simp_all

lemma starts_value_Serialize:
  assumes "number_format num_str num_of"
  shows "starts_value (SerializeJSONProperty num_str k v @ t)"
proof (cases v)
  case (JNum n)
  from assms have "num_str n \<noteq> []" and chars: "list_all is_num_char (num_str n)"
    by (simp_all add: number_format_def)
  then obtain c r where tok: "num_str n = c # r"
    by (cases "num_str n") auto
  with chars have "is_num_char c"
    by simp
  with JNum tok show ?thesis
    by (simp add: starts_value_num)
qed (simp_all add: starts_value_def lit_null lit_true lit_false QuoteJSONString_def wrap_def is_ws_def)

lemma ends_number_simps [simp]: "ends_number (0x0A # t)" "ends_number (0x2C # t)" "ends_number []"
  by (simp_all add: ends_number_def is_num_char_def)

lemma need_list_Cons_le: "need_list (n # ns) \<le> f \<Longrightarrow> \<exists>f'. f = Suc f' \<and> n \<le> f' \<and> need_list ns \<le> f'"
  by (cases f) simp_all

lemma parse_elements_join:
  assumes IH: "\<And>v f ws rest. v \<in> set vs \<Longrightarrow> need v \<le> f \<Longrightarrow> list_all is_ws ws \<Longrightarrow> ends_number rest \<Longrightarrow>
      parse_value num_of f (ws @ SerializeJSONProperty num_str k v @ rest) = Some (v, rest)"
    and "vs \<noteq> []" and "need_list (map need vs) \<le> f" and "list_all is_ws ws"
  shows "parse_elements num_of f
           (ws @ join (separator k) (map (SerializeJSONProperty num_str k) vs) @ 0x0A # spaces i @ 0x5D # rest)
         = Some (vs, rest)"
  using assms
proof (induction vs arbitrary: f ws)
  case Nil
  then show ?case by simp
next
  case (Cons v vs)
  from Cons.prems(3) obtain f' where f: "f = Suc f'" and v: "need v \<le> f'"
    and vs: "need_list (map need vs) \<le> f'"
    using need_list_Cons_le [of "need v" "map need vs" f] by auto
  show ?case
  proof (cases vs)
    case Nil
    have "parse_value num_of f' (ws @ SerializeJSONProperty num_str k v @ 0x0A # spaces i @ 0x5D # rest)
        = Some (v, 0x0A # spaces i @ 0x5D # rest)"
      using v Cons.prems(4) by (intro Cons.prems(1)) simp_all
    moreover have "skip_ws (0x0A # spaces i @ 0x5D # rest) = 0x5D # rest"
      using skip_ws_ws [of "0x0A # spaces i" "0x5D # rest"] spaces_ws [of i]
      by (simp add: skip_ws_start is_ws_def)
    ultimately show ?thesis
      by (simp add: f Nil)
  next
    case (Cons w vs')
    let ?tail = "join (separator k) (map (SerializeJSONProperty num_str k) (w # vs')) @ 0x0A # spaces i @ 0x5D # rest"
    have first: "parse_value num_of f' (ws @ SerializeJSONProperty num_str k v @ 0x2C # 0x0A # spaces k @ ?tail)
        = Some (v, 0x2C # 0x0A # spaces k @ ?tail)"
      using v Cons.prems(4) by (intro Cons.prems(1)) simp_all
    have ws': "list_all is_ws (0x0A # spaces k)"
      using spaces_ws [of k] by simp
    have "parse_elements num_of f' ((0x0A # spaces k) @ ?tail) = Some (w # vs', rest)"
      unfolding Cons [symmetric]
      using vs ws' Cons by (intro Cons.IH) (simp_all add: Cons.prems(1))
    with first show ?thesis
      by (simp add: f Cons separator_def skip_ws_start is_ws_def)
  qed
qed

lemma is_ws_punct:
  "\<not> is_ws 0x22" "\<not> is_ws 0x3A" "\<not> is_ws 0x2C" "\<not> is_ws 0x5D" "\<not> is_ws 0x7D"
  "\<not> is_ws 0x5B" "\<not> is_ws 0x7B"
  by (simp_all add: is_ws_def)

lemma parse_members_join:
  assumes IH: "\<And>kv f ws rest. kv \<in> set kvs \<Longrightarrow> need (snd kv) \<le> f \<Longrightarrow> list_all is_ws ws \<Longrightarrow>
      ends_number rest \<Longrightarrow>
      parse_value num_of f (ws @ SerializeJSONProperty num_str k (snd kv) @ rest) = Some (snd kv, rest)"
    and "kvs \<noteq> []" and "need_list (map (\<lambda>kv. need (snd kv)) kvs) \<le> f" and "list_all is_ws ws"
  shows "parse_members num_of f
           (ws @ join (separator k)
                   (map (\<lambda>(key, v). QuoteJSONString key @ [0x3A, 0x20] @ SerializeJSONProperty num_str k v) kvs)
               @ 0x0A # spaces i @ 0x7D # rest)
         = Some (kvs, rest)"
  using assms
proof (induction kvs arbitrary: f ws)
  case Nil
  then show ?case by simp
next
  case (Cons kv kvs)
  obtain key v where kv: "kv = (key, v)"
    by (cases kv)
  from Cons.prems(3) obtain f' where f: "f = Suc f'" and v: "need v \<le> f'"
    and rest_need: "need_list (map (\<lambda>kv. need (snd kv)) kvs) \<le> f'"
    using need_list_Cons_le [of "need (snd kv)" "map (\<lambda>kv. need (snd kv)) kvs" f] kv by auto
  let ?member = "\<lambda>(key, v). QuoteJSONString key @ [0x3A, 0x20] @ SerializeJSONProperty num_str k v"
  have key_read: "parse_chars (quote_units key @ 0x22 # t) = Some (key, t)" for t
    by (rule parse_chars_quote_units)
  have start: "skip_ws (ws @ 0x22 # t) = 0x22 # t" for t
    using Cons.prems(4) by (simp add: skip_ws_ws skip_ws_start is_ws_punct)
  have val: "parse_value num_of f' ([0x20] @ SerializeJSONProperty num_str k v @ r) = Some (v, r)"
    if "ends_number r" for r
    using Cons.prems(1) [of kv f' "[0x20]" r] v that kv by simp
  show ?case
  proof (cases kvs)
    case Nil
    have "skip_ws (0x0A # spaces i @ 0x7D # rest) = 0x7D # rest"
      using skip_ws_ws [of "0x0A # spaces i" "0x7D # rest"] spaces_ws [of i]
      by (simp add: skip_ws_start is_ws_def)
    with val [of "0x0A # spaces i @ 0x7D # rest"] start show ?thesis
      by (simp add: f Nil kv QuoteJSONString_def skip_ws_start is_ws_punct key_read)
  next
    case (Cons kw kvs')
    let ?tail = "join (separator k) (map ?member (kw # kvs')) @ 0x0A # spaces i @ 0x7D # rest"
    have ws': "list_all is_ws (0x0A # spaces k)"
      using spaces_ws [of k] by simp
    have more: "parse_members num_of f' ((0x0A # spaces k) @ ?tail) = Some (kw # kvs', rest)"
      unfolding Cons [symmetric]
      using rest_need ws' Cons by (intro Cons.IH) (simp_all add: Cons.prems(1))
    from val [of "0x2C # 0x0A # spaces k @ ?tail"] more start show ?thesis
      by (simp add: f Cons kv QuoteJSONString_def separator_def skip_ws_start is_ws_punct key_read)
  qed
qed

lemma need_Suc: "need v \<le> f \<Longrightarrow> \<exists>f'. f = Suc f'"
  by (cases v; cases f) simp_all

lemma parse_value_Serialize:
  assumes fmt: "number_format num_str num_of"
  shows "representable v \<Longrightarrow> need v \<le> f \<Longrightarrow> list_all is_ws ws \<Longrightarrow> ends_number rest \<Longrightarrow>
     parse_value num_of f (ws @ SerializeJSONProperty num_str k v @ rest) = Some (v, rest)"
proof (induction v arbitrary: f ws rest k)
  case JNull
  from need_Suc [OF JNull.prems(2)] obtain f' where "f = Suc f'" ..
  with JNull.prems(3) show ?case
    by (simp add: parse_value_null del: parse_value.simps)
next
  case (JBool b)
  from need_Suc [OF JBool.prems(2)] obtain f' where "f = Suc f'" ..
  with JBool.prems(3) show ?case
    by (simp add: parse_value_true parse_value_false del: parse_value.simps)
next
  case (JNum n)
  from need_Suc [OF JNum.prems(2)] obtain f' where f: "f = Suc f'" ..
  from fmt have "num_str n \<noteq> []" "list_all is_num_char (num_str n)" "num_of (num_str n) = Some n"
    by (simp_all add: number_format_def)
  with JNum.prems(3,4) show ?case
    unfolding f SerializeJSONProperty.simps by (intro parse_value_number)
next
  case (JStr s)
  from need_Suc [OF JStr.prems(2)] obtain f' where "f = Suc f'" ..
  with JStr.prems(3) show ?case
    by (simp add: parse_value_string del: parse_value.simps)
next
  case (JArr vs)
  from JArr.prems(2) obtain f' where f: "f = Suc f'" and inner: "need_list (map need vs) \<le> f'"
    by (cases f) simp_all
  show ?case
  proof (cases "vs = []")
    case True
    with JArr.prems(3) parse_value_empty_array [of ws num_of f' rest] show ?thesis
      by (simp add: f wrap_def del: parse_value.simps)
  next
    case False
    let ?parts = "map (SerializeJSONProperty num_str (k + 2)) vs"
    let ?t = "join (separator (k + 2)) ?parts @ 0x0A # spaces k @ 0x5D # rest"
    have shape: "SerializeJSONProperty num_str k (JArr vs) @ rest = 0x5B # (0x0A # spaces (k + 2)) @ ?t"
      using False by (simp add: wrap_def)
    have ws': "list_all is_ws (0x0A # spaces (k + 2))"
      using spaces_ws [of "k + 2"] by simp
    have "starts_value (hd ?parts @ t)" for t
      using False starts_value_Serialize [OF fmt] by (cases vs) simp_all
    with False have start: "starts_value ?t"
      by (intro starts_value_join) simp_all
    have elems: "parse_elements num_of f' ((0x0A # spaces (k + 2)) @ ?t) = Some (vs, rest)"
    proof (rule parse_elements_join [OF _ False inner ws'])
      fix v g ws2 rest2
      assume "v \<in> set vs" and "need v \<le> g" and "list_all is_ws ws2" and "ends_number rest2"
      moreover from \<open>v \<in> set vs\<close> JArr.prems(1) have "representable v"
        by (simp add: list_all_iff)
      ultimately show "parse_value num_of g (ws2 @ SerializeJSONProperty num_str (k + 2) v @ rest2)
          = Some (v, rest2)"
        by (intro JArr.IH)
    qed
    show ?thesis
      unfolding f shape
      using parse_value_array [OF JArr.prems(3) ws' start, of num_of f'] elems by simp
  qed
next
  case (JObj kvs)
  from JObj.prems(2) obtain f' where f: "f = Suc f'"
    and inner: "need_list (map (\<lambda>kv. need (snd kv)) kvs) \<le> f'"
    by (cases f) simp_all
  from JObj.prems(1) have own: "own_properties kvs = kvs"
    by (simp add: own_properties_id)
  show ?case
  proof (cases "kvs = []")
    case True
    with JObj.prems(3) parse_value_empty_object [of ws num_of f' rest] show ?thesis
      by (simp add: f wrap_def del: parse_value.simps)
  next
    case False
    let ?member = "\<lambda>(key, v). QuoteJSONString key @ [0x3A, 0x20] @ SerializeJSONProperty num_str (k + 2) v"
    let ?parts = "map ?member kvs"
    let ?t = "join (separator (k + 2)) ?parts @ 0x0A # spaces k @ 0x7D # rest"
    have shape: "SerializeJSONProperty num_str k (JObj kvs) @ rest = 0x7B # (0x0A # spaces (k + 2)) @ ?t"
      using False by (simp add: wrap_def)
    have ws': "list_all is_ws (0x0A # spaces (k + 2))"
      using spaces_ws [of "k + 2"] by simp
    have "starts_value (hd ?parts @ t)" for t
      using False by (cases kvs) (auto simp: QuoteJSONString_def starts_value_def is_ws_punct)
    with False have start: "starts_value ?t"
      by (intro starts_value_join) simp_all
    have members: "parse_members num_of f' ((0x0A # spaces (k + 2)) @ ?t) = Some (kvs, rest)"
    proof (rule parse_members_join [OF _ False inner ws'])
      fix kv g ws2 rest2
      assume kv: "kv \<in> set kvs" and "need (snd kv) \<le> g" and "list_all is_ws ws2"
        and "ends_number rest2"
      moreover from kv JObj.prems(1) have "representable (snd kv)"
        by (simp add: list_all_iff)
      moreover have "snd kv \<in> Basic_BNFs.snds kv"
        by (cases kv) simp
      ultimately show "parse_value num_of g (ws2 @ SerializeJSONProperty num_str (k + 2) (snd kv) @ rest2)
          = Some (snd kv, rest2)"
        by (intro JObj.IH [of kv "snd kv"])
    qed
    show ?thesis
      unfolding f shape
      using parse_value_object [OF JObj.prems(3) ws' start, of num_of f'] members own by simp
  qed
qed

lemma need_list_join:
  assumes "\<And>x. x \<in> set xs \<Longrightarrow> n x \<le> length (g x)" and "sep \<noteq> []"
  shows "need_list (map n xs) \<le> Suc (length (join sep (map g xs)))"
  using assms(1)
proof (induction xs)
  case Nil
  show ?case by simp
next
  case (Cons x xs)
  then have x: "n x \<le> length (g x)" and ih: "need_list (map n xs) \<le> Suc (length (join sep (map g xs)))"
    by simp_all
  from assms(2) have "1 \<le> length sep"
    by (cases sep) simp_all
  with x ih show ?case
    by (cases xs) (auto simp: max_def)
qed

lemma need_le_length:
  assumes fmt: "number_format num_str num_of"
  shows "need v \<le> length (SerializeJSONProperty num_str k v)"
proof (induction v arbitrary: k)
  case (JNum n)
  from fmt have "num_str n \<noteq> []"
    by (simp add: number_format_def)
  then show ?case
    by (cases "num_str n") simp_all
next
  case (JArr vs)
  have "need_list (map need vs)
      \<le> Suc (length (join (separator (k + 2)) (map (SerializeJSONProperty num_str (k + 2)) vs)))"
    by (rule need_list_join) (simp_all add: JArr.IH separator_def)
  then show ?case
    by (cases "vs = []") (simp_all add: wrap_def)
next
  case (JObj kvs)
  let ?member = "\<lambda>(key, v). QuoteJSONString key @ [0x3A, 0x20] @ SerializeJSONProperty num_str (k + 2) v"
  have "need_list (map (\<lambda>kv. need (snd kv)) kvs)
      \<le> Suc (length (join (separator (k + 2)) (map ?member kvs)))"
  proof (rule need_list_join)
    fix kv assume "kv \<in> set kvs"
    moreover have "snd kv \<in> Basic_BNFs.snds kv"
      by (cases kv) simp
    ultimately have "need (snd kv) \<le> length (SerializeJSONProperty num_str (k + 2) (snd kv))"
      by (rule JObj.IH)
    then show "need (snd kv) \<le> length (?member kv)"
      by (cases kv) simp
  qed (simp add: separator_def)
  then show ?case
    by (cases "kvs = []") (simp_all add: wrap_def)
qed (simp_all add: lit_def QuoteJSONString_def)

lemma JSON_parse_stringify:
  assumes "number_format num_str num_of" and "representable v"
  shows "JSON_parse num_of (JSON_stringify num_str v) = Some v"
proof -
  let ?t = "SerializeJSONProperty num_str 0 v"
  have "need v \<le> Suc (length ?t)"
    using need_le_length [OF assms(1), of v 0] by simp
  with assms have "parse_value num_of (Suc (length ?t)) ([] @ ?t @ []) = Some (v, [])"
    by (intro parse_value_Serialize) simp_all
  then show ?thesis
    by (simp add: JSON_parse_def JSON_stringify_def skip_ws_def del: parse_value.simps)
qed

text \<open>
  Claim C9. The content of the file that downloadJSON exports is exactly
  \<open>JSON.stringify(result, null, 2)\<close>, and parsing the exported text gives back the
  report, for every report that is a JSON value with distinct keys in each object.
\<close>

theorem downloadJSON_round_trip:
  assumes "number_format num_str num_of" and "representable result"
  shows "file_content (downloadJSON num_str result) = JSON_stringify num_str result \<and>
         JSON_parse num_of (file_content (downloadJSON num_str result)) = Some result"
  using JSON_parse_stringify [OF assms] by (simp add: downloadJSON_def)

text \<open>
  Whole numbers written in decimal are one format of numbers that reads back what it
  writes; the sample report uses it.
\<close>

definition decimal_str :: "nat \<Rightarrow> js_string" where
  "decimal_str n = lit (digits n)"

definition decimal_of :: "js_string \<Rightarrow> nat option" where
  "decimal_of t = (if t \<noteq> [] \<and> list_all is_digit t then Some (index_value t) else None)"

definition sample_report :: "nat json" where
  "sample_report =
     JObj [(lit ''summary'', JObj [(lit ''fraud_rings_detected'', JNum 1)]),
           (lit ''fraud_rings'',
              JArr [JObj [(lit ''ring_id'', JStr (lit ''R001'')),
                          (lit ''member_accounts'', JArr [JStr (lit ''A''), JStr (lit ''B'')]),
                          (lit ''risk_score'', JNum 95)]]),
           (lit ''suspicious_accounts'', JArr [])]"

lemma digit_unit:
  assumes "d < 10"
  shows "is_digit (of_char (digit_char d))" and "unat (of_char (digit_char d) :: code_unit) - 48 = d"
  using below_10_cases [OF assms] by (auto simp: digit_char_def is_digit_def)

lemma digits_units: "list_all is_digit (lit (digits n))"
proof (induction n rule: digits.induct)
  case (1 n)
  show ?case
  proof (cases "n < 10")
    case True
    then show ?thesis
      by (simp add: digits.simps [of n] lit_def digit_unit)
  next
    case False
    with "1" have "list_all is_digit (lit (digits (n div 10)))"
      by simp
    with False show ?thesis
      by (simp add: digits.simps [of n] lit_def digit_unit)
  qed
qed

lemma index_value_snoc: "index_value (s @ [c]) = 10 * index_value s + (unat c - 48)"
  by (simp add: index_value_def)

lemma index_value_digits: "index_value (lit (digits n)) = n"
proof (induction n rule: digits.induct)
  case (1 n)
  show ?case
  proof (cases "n < 10")
    case True
    then show ?thesis
      by (simp add: digits.simps [of n] lit_def index_value_def digit_unit)
  next
    case False
    with "1" have "index_value (lit (digits (n div 10))) = n div 10"
      by simp
    with False show ?thesis
      using index_value_snoc [of "lit (digits (n div 10))" "of_char (digit_char (n mod 10))"]
      by (simp add: digits.simps [of n] lit_def digit_unit)
  qed
qed

lemma digits_nonempty: "digits n \<noteq> []"
  by (subst digits.simps) simp

lemma decimal_number_format: "number_format decimal_str decimal_of"
proof -
  have chars: "list_all is_num_char (lit (digits n))" for n
    using digits_units [of n] by (simp add: list_all_iff is_digit_def is_num_char_def)
  have ne: "lit (digits n) \<noteq> []" for n
    by (simp add: lit_def digits_nonempty)
  show ?thesis
    by (simp add: number_format_def decimal_str_def decimal_of_def digits_units index_value_digits
        chars ne)
qed

lemma sample_report_representable: "representable sample_report"
  by (simp add: sample_report_def order_keys_def array_index_def lit_def is_digit_def)

lemma spaces_0: "spaces 0 = []" and spaces_Suc: "spaces (Suc n) = 0x20 # spaces n"
  by (simp_all add: spaces_def)

theorem downloadJSON_round_trip_witness:
  "number_format decimal_str decimal_of \<and> representable sample_report \<and>
   JSON_parse decimal_of (file_content (downloadJSON decimal_str sample_report)) = Some sample_report \<and>
   file_content (downloadJSON decimal_str (JObj [(lit ''ring_id'', JStr (lit ''R001''))])) =
     lit ''{'' @ [0x0A] @ lit ''  \"ring_id\": \"R001\"'' @ [0x0A] @ lit ''}''"
proof -
  have small: "JSON_stringify decimal_str (JObj [(lit ''ring_id'', JStr (lit ''R001''))]) =
     lit ''{'' @ [0x0A] @ lit ''  \"ring_id\": \"R001\"'' @ [0x0A] @ lit ''}''"
    by (simp add: JSON_stringify_def wrap_def QuoteJSONString_def quote_unit_def
        is_leading_surrogate_def is_trailing_surrogate_def separator_def spaces_0 spaces_Suc lit_def)
  then have "file_content (downloadJSON decimal_str (JObj [(lit ''ring_id'', JStr (lit ''R001''))])) =
     lit ''{'' @ [0x0A] @ lit ''  \"ring_id\": \"R001\"'' @ [0x0A] @ lit ''}''"
    by (simp only: downloadJSON_def download.simps)
  with downloadJSON_round_trip [OF decimal_number_format sample_report_representable]
    decimal_number_format sample_report_representable
  show ?thesis
    by blast
qed

end
